theory Spec2Isabelle
  imports Main "HOL-Library.Word" "HOL-Library.Multiset"
begin

section \<open>Data model of proj3/kernel/p3\_rsv.c\<close>

text \<open>
  Reservation entries are heap objects reached through pointers: the global list
  \<open>p3_rsv_list\<close> links them, the sort array of the priority pass holds pointers to
  them, and a task inside \<open>wait_until_next_period\<close> keeps its pointer after the lock
  is dropped. The model therefore keeps an explicit store from addresses to entries and
  the list as a list of addresses, in list order (\<open>list_add_tail\<close> appends).
\<close>

type_synonym addr = nat
type_synonym pid_t = int
type_synonym ktime_t = int

datatype errno = EFAULT | EINVAL | ESRCH | EBUSY | ENOSPC | ENOMEM | ENOENT | EINTR

datatype sched_policy = SCHED_NORMAL | SCHED_FIFO

text \<open>
  The part of a kernel \<open>task_struct\<close> the file touches: scheduling class and
  real-time priority (written by \<open>sched_setscheduler_nocheck\<close>), the \<open>PF_EXITING\<close>
  flag, the reference count moved by \<open>get_task_struct\<close>/\<open>put_task_struct\<close>, and
  whether the task sleeps in \<open>TASK_INTERRUPTIBLE\<close>. Task structures are keyed by pid.
\<close>

record task_struct =
  policy :: sched_policy
  rt_priority :: int
  exiting :: bool
  usage :: nat
  sleeping :: bool

record hrtimer =
  enqueued :: bool
  expires :: ktime_t

record p3_rsv_entry =
  pid :: pid_t
  task :: "pid_t option"
  C_ns :: ktime_t
  T_ns :: ktime_t
  prio :: int
  timer :: hrtimer
  next_release :: ktime_t
  wq :: "pid_t list"
  period_seq :: "64 word"
  canceled :: bool

record kstate =
  heap :: "addr \<rightharpoonup> p3_rsv_entry"
  p3_rsv_list :: "addr list"
  tasks :: "pid_t \<rightharpoonup> task_struct"

definition P3_MAX_RSV :: nat where
  "P3_MAX_RSV = 50"

text \<open>
  Modelled from the spec: the constant \<open>MAX_RT_PRIO\<close> comes from the kernel header
  \<open>linux/sched/prio.h\<close>, which is not part of the repository. The spec calls
  \<open>MAX_RT_PRIO - 1\<close> the highest available real-time priority value and 1 the lowest
  valid one; the repository's README gives the highest value as 99.
\<close>

definition MAX_RT_PRIO :: int where
  "MAX_RT_PRIO = 100"

text \<open>
  Pointers stored in the list always refer to allocated entries (invariant \<open>valid_store\<close>
  below), so list traversals read through them directly.
\<close>

definition deref :: "kstate \<Rightarrow> addr \<Rightarrow> p3_rsv_entry" where
  "deref st a = the (heap st a)"

definition upd_entry :: "addr \<Rightarrow> (p3_rsv_entry \<Rightarrow> p3_rsv_entry) \<Rightarrow> kstate \<Rightarrow> kstate" where
  "upd_entry a f st =
     (case heap st a of
        None \<Rightarrow> st
      | Some e \<Rightarrow> st\<lparr>heap := (heap st)(a \<mapsto> f e)\<rparr>)"

definition upd_task :: "pid_t \<Rightarrow> (task_struct \<Rightarrow> task_struct) \<Rightarrow> kstate \<Rightarrow> kstate" where
  "upd_task t f st =
     (case tasks st t of
        None \<Rightarrow> st
      | Some ts \<Rightarrow> st\<lparr>tasks := (tasks st)(t \<mapsto> f ts)\<rparr>)"

definition valid_store :: "kstate \<Rightarrow> bool" where
  "valid_store st \<longleftrightarrow> distinct (p3_rsv_list st) \<and> (\<forall>a \<in> set (p3_rsv_list st). heap st a \<noteq> None)"

section \<open>Helpers\<close>

subsection \<open>p3\_find\_locked\<close>

fun find_in :: "kstate \<Rightarrow> pid_t \<Rightarrow> addr list \<Rightarrow> addr option" where
  "find_in st p [] = None"
| "find_in st p (it # its) = (if pid (deref st it) = p then Some it else find_in st p its)"

definition p3_find_locked :: "kstate \<Rightarrow> pid_t \<Rightarrow> addr option" where
  "p3_find_locked st p = find_in st p (p3_rsv_list st)"

subsection \<open>p3\_reassign\_rm\_prios\_locked\<close>

text \<open>First loop: copy at most \<open>P3_MAX_RSV\<close> pointers into \<open>arr\<close>.\<close>

fun collect :: "addr list \<Rightarrow> addr list \<Rightarrow> addr list" where
  "collect arr [] = arr"
| "collect arr (it # its) =
     collect (if length arr < P3_MAX_RSV then arr @ [it] else arr) its"

definition swap_arr :: "nat \<Rightarrow> nat \<Rightarrow> addr list \<Rightarrow> addr list" where
  "swap_arr i j arr = (arr[i := arr ! j])[j := arr ! i]"

text \<open>
  The nested exchange loops; \<open>T\<close> reads \<open>ktime_to_ns(p->T_ns)\<close> through a pointer.
  Both indices stay below \<open>n = length arr\<close>.
\<close>

function sort_inner :: "(addr \<Rightarrow> int) \<Rightarrow> nat \<Rightarrow> nat \<Rightarrow> addr list \<Rightarrow> addr list" where
  "sort_inner T i j arr =
     (if j < length arr
      then sort_inner T i (j + 1) (if T (arr ! j) < T (arr ! i) then swap_arr i j arr else arr)
      else arr)"
  by pat_completeness auto
termination
  by (relation "measure (\<lambda>(T, i, j, arr). length arr - j)") (auto simp: swap_arr_def)

declare sort_inner.simps [simp del]

function sort_outer :: "(addr \<Rightarrow> int) \<Rightarrow> nat \<Rightarrow> addr list \<Rightarrow> addr list" where
  "sort_outer T i arr =
     (if i < length arr
      then sort_outer T (i + 1) (sort_inner T i (i + 1) arr)
      else arr)"
  by pat_completeness auto
termination
proof (relation "measure (\<lambda>(T, i, arr). length arr - i)")
  show "wf (measure (\<lambda>(T, i, arr). length arr - i))"
    by simp
next
  fix T :: "addr \<Rightarrow> int" and i :: nat and arr :: "addr list"
  assume i: "i < length arr"
  have len: "length (sort_inner T' i' j a) = length a" for T' i' j a
  proof (induction T' i' j a rule: sort_inner.induct)
    case (1 T' i' j a)
    show ?case
    proof (cases "j < length a")
      case True
      then have "sort_inner T' i' j a =
          sort_inner T' i' (j + 1) (if T' (a ! j) < T' (a ! i') then swap_arr i' j a else a)"
        by (subst sort_inner.simps) simp
      with "1.IH" [OF True] show ?thesis
        by (simp add: swap_arr_def)
    next
      case False
      then show ?thesis
        by (subst sort_inner.simps) simp
    qed
  qed
  show "((T, i + 1, sort_inner T i (i + 1) arr), (T, i, arr))
      \<in> measure (\<lambda>(T, i, arr). length arr - i)"
    using i by (simp add: len)
qed

declare sort_outer.simps [simp del]

text \<open>
  Loop invariant of the outer loop: every position below \<open>i\<close> holds a period that is
  at most the period at every later position.
\<close>

definition prefix_sorted :: "(addr \<Rightarrow> int) \<Rightarrow> nat \<Rightarrow> addr list \<Rightarrow> bool" where
  "prefix_sorted T i arr \<longleftrightarrow>
     (\<forall>k m. k < i \<and> k < m \<and> m < length arr \<longrightarrow> T (arr ! k) \<le> T (arr ! m))"

definition T_of :: "kstate \<Rightarrow> addr \<Rightarrow> int" where
  "T_of st a = T_ns (deref st a)"

definition rm_order :: "kstate \<Rightarrow> addr list" where
  "rm_order st = sort_outer (T_of st) 0 (collect [] (p3_rsv_list st))"

definition sched_setscheduler_nocheck ::
    "pid_t \<Rightarrow> sched_policy \<Rightarrow> int \<Rightarrow> kstate \<Rightarrow> kstate" where
  "sched_setscheduler_nocheck t pol pr st =
     upd_task t (\<lambda>ts. ts\<lparr>policy := pol, rt_priority := pr\<rparr>) st"

definition rank_prio :: "nat \<Rightarrow> int" where
  "rank_prio i = (let pr = (MAX_RT_PRIO - 1) - int i in if pr < 1 then 1 else pr)"

definition assign_one :: "nat \<Rightarrow> addr \<Rightarrow> kstate \<Rightarrow> kstate" where
  "assign_one i a st =
     (let pr = rank_prio i;
          st1 = upd_entry a (\<lambda>e. e\<lparr>prio := pr\<rparr>) st
      in case task (deref st1 a) of
           None \<Rightarrow> st1
         | Some t \<Rightarrow> sched_setscheduler_nocheck t SCHED_FIFO pr st1)"

function assign_loop :: "nat \<Rightarrow> addr list \<Rightarrow> kstate \<Rightarrow> kstate" where
  "assign_loop i arr st =
     (if i < length arr
      then assign_loop (i + 1) arr (assign_one i (arr ! i) st)
      else st)"
  by pat_completeness auto
termination
  by (relation "measure (\<lambda>(i, arr, st). length arr - i)") auto

declare assign_loop.simps [simp del]

definition p3_reassign_rm_prios_locked :: "kstate \<Rightarrow> kstate" where
  "p3_reassign_rm_prios_locked st = assign_loop 0 (rm_order st) st"


section \<open>Kernel services used by the file\<close>

text \<open>
  Modelled from the spec: \<open>struct timespec\<close>, \<open>ktime_set\<close> and \<open>ktime_to_ns\<close> are
  kernel declarations outside the repository. The source keeps \<open>(C,T)\<close> in
  nanoseconds; \<open>ktime_set\<close> saturates at \<open>KTIME_MAX\<close> from \<open>KTIME_SEC_MAX\<close> seconds on
  and otherwise computes \<open>secs * NSEC_PER_SEC + nsecs\<close> in signed 64-bit arithmetic.
\<close>

record timespec =
  tv_sec :: int
  tv_nsec :: int

definition NSEC_PER_SEC :: int where
  "NSEC_PER_SEC = 1000000000"

definition KTIME_MAX :: int where
  "KTIME_MAX = 2 ^ 63 - 1"

definition KTIME_SEC_MAX :: int where
  "KTIME_SEC_MAX = KTIME_MAX div NSEC_PER_SEC"

definition s64 :: "int \<Rightarrow> int" where
  "s64 x = (x + 2 ^ 63) mod 2 ^ 64 - 2 ^ 63"

definition ktime_set :: "int \<Rightarrow> int \<Rightarrow> ktime_t" where
  "ktime_set secs nsecs =
     (if secs \<ge> KTIME_SEC_MAX then KTIME_MAX else s64 (secs * NSEC_PER_SEC + nsecs))"

text \<open>
  Modelled from the spec: the process registry and the task reference count.
  \<open>pid_task(find_vpid(pid), PIDTYPE_PID)\<close> resolves a pid to its live task or to
  \<open>NULL\<close>; \<open>usage\<close> counts the references this file holds on a task.
\<close>

definition pid_task :: "kstate \<Rightarrow> pid_t \<Rightarrow> pid_t option" where
  "pid_task st p = (case tasks st p of None \<Rightarrow> None | Some ts \<Rightarrow> Some p)"

definition get_task_struct :: "pid_t \<Rightarrow> kstate \<Rightarrow> kstate" where
  "get_task_struct t st = upd_task t (\<lambda>ts. ts\<lparr>usage := usage ts + 1\<rparr>) st"

definition put_task_struct :: "pid_t \<Rightarrow> kstate \<Rightarrow> kstate" where
  "put_task_struct t st = upd_task t (\<lambda>ts. ts\<lparr>usage := usage ts - 1\<rparr>) st"

text \<open>
  Modelled from the spec: the high-resolution timer. A timer is enqueued or not and has
  an absolute expiry time. \<open>hrtimer_start\<close> in relative mode arms it at \<open>now + tim\<close>;
  \<open>hrtimer_forward_now\<close> moves the expiry forward from its last intended firing time by
  whole intervals until it lies after \<open>now\<close>; \<open>hrtimer_cancel\<close> disarms it.
\<close>

definition hrtimer_start :: "ktime_t \<Rightarrow> ktime_t \<Rightarrow> hrtimer \<Rightarrow> hrtimer" where
  "hrtimer_start now tim t = t\<lparr>enqueued := True, expires := now + tim\<rparr>"

definition hrtimer_cancel :: "hrtimer \<Rightarrow> hrtimer" where
  "hrtimer_cancel t = t\<lparr>enqueued := False\<rparr>"

definition hrtimer_forward_now :: "ktime_t \<Rightarrow> ktime_t \<Rightarrow> hrtimer \<Rightarrow> hrtimer" where
  "hrtimer_forward_now now interval t =
     (let delta = now - expires t
      in if delta < 0 then t
         else t\<lparr>expires := expires t + interval * (delta div interval + 1)\<rparr>)"

text \<open>
  Modelled from the spec: the wait queue. \<open>wq\<close> lists the tasks enqueued on a
  reservation's wait channel; \<open>wake_up_all\<close> makes each of them runnable and takes it
  off the queue.
\<close>

definition wake_up_all :: "addr \<Rightarrow> kstate \<Rightarrow> kstate" where
  "wake_up_all e st =
     (let ws = wq (deref st e);
          st1 = upd_entry e (\<lambda>x. x\<lparr>wq := []\<rparr>) st
      in fold (\<lambda>t. upd_task t (\<lambda>ts. ts\<lparr>sleeping := False\<rparr>)) ws st1)"

definition kfree :: "addr \<Rightarrow> kstate \<Rightarrow> kstate" where
  "kfree e st = st\<lparr>heap := (heap st)(e := None)\<rparr>"

definition list_del :: "addr \<Rightarrow> kstate \<Rightarrow> kstate" where
  "list_del e st = st\<lparr>p3_rsv_list := remove1 e (p3_rsv_list st)\<rparr>"

section \<open>Timer callback and teardown\<close>

datatype hrtimer_restart = HRTIMER_NORESTART | HRTIMER_RESTART

definition p3_timer_cb :: "ktime_t \<Rightarrow> addr \<Rightarrow> kstate \<Rightarrow> hrtimer_restart \<times> kstate" where
  "p3_timer_cb now e st =
     (if canceled (deref st e) then (HRTIMER_NORESTART, st)
      else
        let st1 = upd_entry e (\<lambda>x. x\<lparr>period_seq := period_seq x + 1\<rparr>) st;
            st2 = upd_entry e (\<lambda>x. x\<lparr>timer := hrtimer_forward_now now (T_ns x) (timer x)\<rparr>) st1;
            st3 = wake_up_all e st2
        in (HRTIMER_RESTART, st3))"

text \<open>
  Modelled from the spec: expiry of the timer of entry \<open>e\<close> at time \<open>now\<close>. The timer
  core takes an enqueued, expired timer off its queue, runs the callback, and enqueues
  the timer again exactly when the callback returns \<open>HRTIMER_RESTART\<close>.
\<close>

definition run_hrtimer :: "ktime_t \<Rightarrow> addr \<Rightarrow> kstate \<Rightarrow> kstate" where
  "run_hrtimer now e st =
     (case heap st e of
        None \<Rightarrow> st
      | Some ent \<Rightarrow>
          if \<not> enqueued (timer ent) \<or> now < expires (timer ent) then st
          else
            let st0 = upd_entry e (\<lambda>x. x\<lparr>timer := (timer x)\<lparr>enqueued := False\<rparr>\<rparr>) st;
                (r, st1) = p3_timer_cb now e st0
            in if r = HRTIMER_RESTART
               then upd_entry e (\<lambda>x. x\<lparr>timer := (timer x)\<lparr>enqueued := True\<rparr>\<rparr>) st1
               else st1)"

text \<open>The steps of \<open>p3_free_entry\<close>, in source order.\<close>

definition mark_canceled :: "addr \<Rightarrow> kstate \<Rightarrow> kstate" where
  "mark_canceled e st = upd_entry e (\<lambda>x. x\<lparr>canceled := True\<rparr>) st"

definition cancel_timer :: "addr \<Rightarrow> kstate \<Rightarrow> kstate" where
  "cancel_timer e st = upd_entry e (\<lambda>x. x\<lparr>timer := hrtimer_cancel (timer x)\<rparr>) st"

definition release_task :: "addr \<Rightarrow> kstate \<Rightarrow> kstate" where
  "release_task e st =
     (case task (deref st e) of
        None \<Rightarrow> st
      | Some t \<Rightarrow>
          (case tasks st t of
             None \<Rightarrow> st
           | Some ts \<Rightarrow>
               put_task_struct t
                 (if \<not> exiting ts then sched_setscheduler_nocheck t SCHED_NORMAL 0 st else st)))"

definition p3_free_entry :: "addr option \<Rightarrow> kstate \<Rightarrow> kstate" where
  "p3_free_entry eo st =
     (case eo of
        None \<Rightarrow> st
      | Some e \<Rightarrow> kfree e (release_task e (wake_up_all e (cancel_timer e (mark_canceled e st)))))"

section \<open>System calls\<close>

text \<open>\<open>if (pid == 0) pid = current->pid\<close>, with \<open>cur\<close> for \<open>current->pid\<close>.\<close>

definition target_pid :: "pid_t \<Rightarrow> pid_t \<Rightarrow> pid_t" where
  "target_pid cur p0 = (if p0 = 0 then cur else p0)"

text \<open>The duration the code computes from a user \<open>timespec\<close> (\<open>Cns\<close>, \<open>Tns\<close>).\<close>

definition ns_of :: "timespec \<Rightarrow> ktime_t" where
  "ns_of ts = ktime_set (tv_sec ts) (tv_nsec ts)"

text \<open>The three argument checks of \<open>set_rsv\<close> (lines 134--142), each returning \<open>-EINVAL\<close>.\<close>

definition args_invalid :: "timespec \<Rightarrow> timespec \<Rightarrow> bool" where
  "args_invalid c_us t_us \<longleftrightarrow>
     (tv_sec c_us < 0 \<or> tv_nsec c_us < 0 \<or> tv_sec t_us < 0 \<or> tv_nsec t_us < 0) \<or>
     (ns_of c_us \<le> 0 \<or> ns_of t_us \<le> 0) \<or>
     ns_of c_us > ns_of t_us"

definition new_entry :: "pid_t \<Rightarrow> pid_t \<Rightarrow> ktime_t \<Rightarrow> ktime_t \<Rightarrow> ktime_t \<Rightarrow> p3_rsv_entry" where
  "new_entry p t Cns Tns now =
     \<lparr>pid = p, task = Some t, C_ns = Cns, T_ns = Tns, prio = 0,
      timer = hrtimer_start now Tns \<lparr>enqueued = False, expires = 0\<rparr>,
      next_release = 0, wq = [], period_seq = 0, canceled = False\<rparr>"

text \<open>
  \<open>set_rsv cur p0 C T alloc now\<close>: \<open>cur\<close> is \<open>current->pid\<close>; \<open>C\<close> and \<open>T\<close> are what
  \<open>copy_from_user\<close> reads, \<open>None\<close> when the copy faults; \<open>alloc\<close> is the result of
  \<open>kzalloc\<close>, \<open>None\<close> for \<open>NULL\<close>; \<open>now\<close> is the clock when the timer is started.
\<close>

definition set_rsv ::
    "pid_t \<Rightarrow> pid_t \<Rightarrow> timespec option \<Rightarrow> timespec option \<Rightarrow> addr option \<Rightarrow> ktime_t \<Rightarrow>
     kstate \<Rightarrow> (errno + unit) \<times> kstate" where
  "set_rsv cur p0 C T alloc now st =
     (let p = target_pid cur p0 in
      (case C of
         None \<Rightarrow> (Inl EFAULT, st)
       | Some c_us \<Rightarrow>
      (case T of
         None \<Rightarrow> (Inl EFAULT, st)
       | Some t_us \<Rightarrow>
      if args_invalid c_us t_us then (Inl EINVAL, st)
      else
        (let Cns = ns_of c_us;
             Tns = ns_of t_us
         in
      (case pid_task st p of
         None \<Rightarrow> (Inl ESRCH, st)
       | Some t \<Rightarrow>
        (let st1 = get_task_struct t st in
         if p3_find_locked st1 p \<noteq> None then (Inl EBUSY, put_task_struct t st1)
         else if length (p3_rsv_list st1) \<ge> P3_MAX_RSV then (Inl ENOSPC, put_task_struct t st1)
         else
           (case alloc of
              None \<Rightarrow> (Inl ENOMEM, put_task_struct t st1)
            | Some e \<Rightarrow>
               (let st2 = st1\<lparr>heap := (heap st1)(e \<mapsto> new_entry p t Cns Tns now),
                              p3_rsv_list := p3_rsv_list st1 @ [e]\<rparr>
                in (Inr (), p3_reassign_rm_prios_locked st2)))))))))"

text \<open>
  \<open>cancel_rsv\<close> and the exit hook drop the lock between unlinking the entry, tearing it
  down and recomputing the priorities; the model runs the three parts in one step.
\<close>

definition cancel_rsv :: "pid_t \<Rightarrow> pid_t \<Rightarrow> kstate \<Rightarrow> (errno + unit) \<times> kstate" where
  "cancel_rsv cur p0 st =
     (let p = target_pid cur p0 in
      case p3_find_locked st p of
        None \<Rightarrow> (Inl ENOENT, st)
      | Some e \<Rightarrow>
          (Inr (), p3_reassign_rm_prios_locked (p3_free_entry (Some e) (list_del e st))))"

definition p3_sched_exit_cb :: "pid_t option \<Rightarrow> kstate \<Rightarrow> kstate" where
  "p3_sched_exit_cb po st =
     (case po of
        None \<Rightarrow> st
      | Some p \<Rightarrow>
          let e = p3_find_locked st p;
              st1 = (case e of None \<Rightarrow> st | Some a \<Rightarrow> list_del a st);
              st2 = (case e of None \<Rightarrow> st1 | Some a \<Rightarrow> p3_free_entry e st1)
          in p3_reassign_rm_prios_locked st2)"

subsection \<open>wait\_until\_next\_period\<close>

text \<open>
  The call runs in four atomic parts, between which other activity may interleave:
  the lookup under the lock (lines 225--232), the lock-free re-check (234), the
  evaluation of the wait condition inside \<open>wait_event_interruptible\<close> (237), and the
  read of \<open>canceled\<close> after the wait (241). A read through the pointer of an entry that
  has been freed in the meantime is a fault of its own, not a return value.

  Modelled from the spec: \<open>wait_event_interruptible\<close> returns 0 as soon as it finds the
  condition true, fails when the condition is false and a signal is pending, and
  otherwise leaves the caller enqueued on the wait queue and asleep; asleep, the caller
  runs again only after a wake-up or a signal.
\<close>

datatype wait_pc =
    W_lookup
  | W_recheck addr "64 word"
  | W_wait addr "64 word"
  | W_woken addr
  | W_ret "errno + unit"
  | W_fault

definition wait_cond :: "p3_rsv_entry \<Rightarrow> 64 word \<Rightarrow> bool" where
  "wait_cond ent seen \<longleftrightarrow> period_seq ent \<noteq> seen \<or> canceled ent"

definition is_sleeping :: "kstate \<Rightarrow> pid_t \<Rightarrow> bool" where
  "is_sleeping st t = (case tasks st t of None \<Rightarrow> False | Some ts \<Rightarrow> sleeping ts)"

definition prepare_to_wait :: "pid_t \<Rightarrow> addr \<Rightarrow> kstate \<Rightarrow> kstate" where
  "prepare_to_wait cur e st =
     upd_task cur (\<lambda>ts. ts\<lparr>sleeping := True\<rparr>)
       (upd_entry e (\<lambda>x. if cur \<in> set (wq x) then x else x\<lparr>wq := wq x @ [cur]\<rparr>) st)"

definition finish_wait :: "pid_t \<Rightarrow> addr \<Rightarrow> kstate \<Rightarrow> kstate" where
  "finish_wait cur e st =
     upd_task cur (\<lambda>ts. ts\<lparr>sleeping := False\<rparr>)
       (upd_entry e (\<lambda>x. x\<lparr>wq := removeAll cur (wq x)\<rparr>) st)"

fun wait_step :: "pid_t \<Rightarrow> bool \<Rightarrow> wait_pc \<Rightarrow> kstate \<Rightarrow> wait_pc \<times> kstate" where
  "wait_step cur sig W_lookup st =
     (case p3_find_locked st cur of
        None \<Rightarrow> (W_ret (Inl ENOENT), st)
      | Some e \<Rightarrow> (W_recheck e (period_seq (deref st e)), st))"
| "wait_step cur sig (W_recheck e seen) st =
     (case heap st e of
        None \<Rightarrow> (W_fault, st)
      | Some ent \<Rightarrow>
          if period_seq ent \<noteq> seen then (W_ret (Inr ()), st) else (W_wait e seen, st))"
| "wait_step cur sig (W_wait e seen) st =
     (if is_sleeping st cur \<and> \<not> sig then (W_wait e seen, st)
      else case heap st e of
        None \<Rightarrow> (W_fault, st)
      | Some ent \<Rightarrow>
          if wait_cond ent seen then (W_woken e, finish_wait cur e st)
          else if sig then (W_ret (Inl EINTR), finish_wait cur e st)
          else (W_wait e seen, prepare_to_wait cur e st))"
| "wait_step cur sig (W_woken e) st =
     (case heap st e of
        None \<Rightarrow> (W_fault, st)
      | Some ent \<Rightarrow>
          if canceled ent then (W_ret (Inl ENOENT), st) else (W_ret (Inr ()), st))"
| "wait_step cur sig (W_ret r) st = (W_ret r, st)"
| "wait_step cur sig W_fault st = (W_fault, st)"



definition timer_due :: "kstate \<Rightarrow> addr \<Rightarrow> ktime_t \<Rightarrow> bool" where
  "timer_due st e now =
     (case heap st e of
        None \<Rightarrow> False
      | Some ent \<Rightarrow> enqueued (timer ent) \<and> expires (timer ent) \<le> now)"

text \<open>The priority of the reservation that the lookup finds for a task.\<close>

definition prio_of_task :: "kstate \<Rightarrow> pid_t \<Rightarrow> int option" where
  "prio_of_task st p = map_option (\<lambda>a. prio (deref st a)) (p3_find_locked st p)"

section \<open>Reachable states\<close>

text \<open>
  The store starts empty. Every entry point of the file is a transition; \<open>kzalloc\<close>
  never returns an address that is still allocated; the rest of the kernel may change
  the task table at any time (fork, exit, scheduling).
\<close>

definition boot :: "(pid_t \<rightharpoonup> task_struct) \<Rightarrow> kstate" where
  "boot ts = \<lparr>heap = Map.empty, p3_rsv_list = [], tasks = ts\<rparr>"

definition kzalloc_ok :: "kstate \<Rightarrow> addr option \<Rightarrow> bool" where
  "kzalloc_ok st alloc = (case alloc of None \<Rightarrow> True | Some a \<Rightarrow> heap st a = None)"

inductive reachable :: "kstate \<Rightarrow> bool" where
  r_boot: "reachable (boot ts)"
| r_set_rsv: "reachable st \<Longrightarrow> kzalloc_ok st alloc \<Longrightarrow>
     reachable (snd (set_rsv cur p0 C T alloc now st))"
| r_cancel_rsv: "reachable st \<Longrightarrow> reachable (snd (cancel_rsv cur p0 st))"
| r_exit: "reachable st \<Longrightarrow> reachable (p3_sched_exit_cb po st)"
| r_timer: "reachable st \<Longrightarrow> reachable (run_hrtimer now e st)"
| r_wait: "reachable st \<Longrightarrow> reachable (snd (wait_step cur sig pc st))"
| r_tasks: "reachable st \<Longrightarrow> reachable (st\<lparr>tasks := ts\<rparr>)"

section \<open>Invariants\<close>

text \<open>
  \<open>pid_frame st st'\<close>: the step from \<open>st\<close> to \<open>st'\<close> keeps the list and the pid
  of every allocated entry. \<open>store_inv\<close> is the invariant of the reachable states: the list is
  well formed, holds at most \<open>P3_MAX_RSV\<close> entries, and no two of them have the same pid.
\<close>

definition pid_frame :: "kstate \<Rightarrow> kstate \<Rightarrow> bool" where
  "pid_frame st st' \<longleftrightarrow>
     p3_rsv_list st' = p3_rsv_list st \<and>
     (\<forall>a. map_option pid (heap st' a) = map_option pid (heap st a))"

definition store_inv :: "kstate \<Rightarrow> bool" where
  "store_inv st \<longleftrightarrow>
     valid_store st \<and> length (p3_rsv_list st) \<le> P3_MAX_RSV \<and>
     distinct (map (\<lambda>a. pid (deref st a)) (p3_rsv_list st))"

section \<open>Example states\<close>

definition demo_task :: task_struct where
  "demo_task = \<lparr>policy = SCHED_NORMAL, rt_priority = 0, exiting = False, usage = 0, sleeping = False\<rparr>"

definition demo_tasks :: "pid_t \<rightharpoonup> task_struct" where
  "demo_tasks = [100 \<mapsto> demo_task, 101 \<mapsto> demo_task]"

definition demo_store :: kstate where
  "demo_store =
     \<lparr>heap = [0 \<mapsto> new_entry 100 100 2000000 10000000 0,
              1 \<mapsto> new_entry 101 101 1000000 5000000 0],
      p3_rsv_list = [0, 1],
      tasks = demo_tasks\<rparr>"

text \<open>
  States of a single reservation for task 100 (2 ms every 10 ms, entry at address 0):
  just registered, after the first timer expiry, after cancellation, with task 100
  asleep on the wait queue, and with the cancelled flag set by the first step of the
  teardown. Then the states of one run: \<open>demo_waiting\<close>, task 100 asleep in
  \<open>wait_until_next_period\<close> after the first expiry; \<open>demo_freed\<close>, after task 101 has
  cancelled the reservation; \<open>demo_reused\<close>, after task 101 has registered task 100
  again and \<open>kzalloc\<close> has returned the address just freed. \<open>demo_window\<close> is the
  state inside \<open>cancel_rsv\<close> on \<open>demo_fired\<close> after lines 205 and 100: the entry is
  unlinked and flagged, and not yet freed.
\<close>

definition demo_reg :: kstate where
  "demo_reg = snd (set_rsv 100 100 (Some \<lparr>tv_sec = 0, tv_nsec = 2000000\<rparr>)
                     (Some \<lparr>tv_sec = 0, tv_nsec = 10000000\<rparr>) (Some 0) 0 (boot demo_tasks))"

definition demo_fired :: kstate where
  "demo_fired = run_hrtimer 10000000 0 demo_reg"

definition demo_cancelled :: kstate where
  "demo_cancelled = snd (cancel_rsv 100 100 demo_fired)"



definition demo_waiting :: kstate where
  "demo_waiting = snd (wait_step 100 False (W_wait 0 1) demo_fired)"

definition demo_freed :: kstate where
  "demo_freed = snd (cancel_rsv 101 100 demo_waiting)"

definition demo_reused :: kstate where
  "demo_reused = snd (set_rsv 101 100 (Some \<lparr>tv_sec = 0, tv_nsec = 2000000\<rparr>)
                        (Some \<lparr>tv_sec = 0, tv_nsec = 10000000\<rparr>) (Some 0) 20000000 demo_freed)"

definition demo_window :: kstate where
  "demo_window = mark_canceled 0 (list_del 0 demo_fired)"

definition demo_entry :: p3_rsv_entry where
  "demo_entry = (new_entry 100 100 2000000 10000000 0)\<lparr>prio := 99\<rparr>"

text \<open>
  \<open>fill n\<close> registers the tasks \<open>1, \<dots>, n\<close> one after the other on an empty store
  in which every pid is a live task; \<open>fill_ok\<close> describes the store this gives.
\<close>

definition fill_tasks :: "pid_t \<rightharpoonup> task_struct" where
  "fill_tasks = (\<lambda>p. Some demo_task)"

fun fill :: "nat \<Rightarrow> kstate" where
  "fill 0 = boot fill_tasks"
| "fill (Suc n) =
     snd (set_rsv 1 (int n + 1) (Some \<lparr>tv_sec = 0, tv_nsec = 1000000\<rparr>)
            (Some \<lparr>tv_sec = 0, tv_nsec = 10000000\<rparr>) (Some n) 0 (fill n))"

declare fill.simps(2) [simp del]

definition fill_ok :: "nat \<Rightarrow> bool" where
  "fill_ok n \<longleftrightarrow>
     p3_rsv_list (fill n) = [0..<n] \<and>
     (\<forall>a. heap (fill n) a = None \<longleftrightarrow> n \<le> a) \<and>
     (\<forall>a<n. pid (deref (fill n) a) = int a + 1) \<and>
     (\<forall>p. tasks (fill n) p \<noteq> None) \<and>
     reachable (fill n)"

section \<open>The priority pass\<close>

subsection \<open>The exchange sort\<close>

lemma length_swap [simp]: "length (swap_arr i j arr) = length arr"
  by (simp add: swap_arr_def)

lemma length_sort_inner [simp]: "length (sort_inner T i j arr) = length arr"
proof (induction T i j arr rule: sort_inner.induct)
  case (1 T i j arr)
  show ?case
  proof (cases "j < length arr")
    case True
    then have "sort_inner T i j arr =
        sort_inner T i (j + 1) (if T (arr ! j) < T (arr ! i) then swap_arr i j arr else arr)"
      by (subst sort_inner.simps) simp
    with "1.IH" [OF True] show ?thesis
      by simp
  next
    case False
    then show ?thesis
      by (subst sort_inner.simps) simp
  qed
qed

lemma sort_inner_unfold:
  "j < length arr \<Longrightarrow> sort_inner T i j arr =
     sort_inner T i (j + 1) (if T (arr ! j) < T (arr ! i) then swap_arr i j arr else arr)"
  by (subst sort_inner.simps) simp

lemma sort_inner_done: "\<not> j < length arr \<Longrightarrow> sort_inner T i j arr = arr"
  by (subst sort_inner.simps) simp

lemma mset_swap_arr: "i < length arr \<Longrightarrow> j < length arr \<Longrightarrow> mset (swap_arr i j arr) = mset arr"
  unfolding swap_arr_def by (cases "i = j") (simp_all add: mset_swap)

lemma swap_arr_nth:
  "i < length arr \<Longrightarrow> j < length arr \<Longrightarrow> k < length arr \<Longrightarrow>
   swap_arr i j arr ! k = (if k = j then arr ! i else if k = i then arr ! j else arr ! k)"
  by (simp add: swap_arr_def nth_list_update)

lemma mset_sort_inner:
  "i < j \<Longrightarrow> mset (sort_inner T i j arr) = mset arr"
proof (induction T i j arr rule: sort_inner.induct)
  case (1 T i j arr)
  show ?case
  proof (cases "j < length arr")
    case True
    let ?a = "if T (arr ! j) < T (arr ! i) then swap_arr i j arr else arr"
    have "mset (sort_inner T i (j + 1) ?a) = mset ?a"
      using "1.IH" [OF True] "1.prems" by simp
    moreover have "mset ?a = mset arr"
      using True "1.prems" by (simp add: mset_swap_arr)
    ultimately show ?thesis
      using True by (simp add: sort_inner_unfold)
  next
    case False
    then show ?thesis by (simp add: sort_inner_done)
  qed
qed

lemma sort_inner_prefix:
  "i < j \<Longrightarrow> k < i \<Longrightarrow> sort_inner T i j arr ! k = arr ! k"
proof (induction T i j arr rule: sort_inner.induct)
  case (1 T i j arr)
  show ?case
  proof (cases "j < length arr")
    case True
    let ?a = "if T (arr ! j) < T (arr ! i) then swap_arr i j arr else arr"
    have "sort_inner T i (j + 1) ?a ! k = ?a ! k"
      using "1.IH" [OF True] "1.prems" by simp
    moreover have "?a ! k = arr ! k"
      using True "1.prems" by (simp add: swap_arr_nth)
    ultimately show ?thesis
      using True by (simp add: sort_inner_unfold)
  next
    case False
    then show ?thesis by (simp add: sort_inner_done)
  qed
qed

text \<open>After the inner loop, position \<open>i\<close> holds a minimum of positions \<open>i..n-1\<close>.\<close>

lemma sort_inner_min:
  "i < j \<Longrightarrow> \<forall>k. i < k \<and> k < j \<and> k < length arr \<longrightarrow> T (arr ! i) \<le> T (arr ! k) \<Longrightarrow>
   i < k \<Longrightarrow> k < length arr \<Longrightarrow>
   T (sort_inner T i j arr ! i) \<le> T (sort_inner T i j arr ! k)"
proof (induction T i j arr arbitrary: k rule: sort_inner.induct)
  case (1 T i j arr)
  show ?case
  proof (cases "j < length arr")
    case True
    let ?a = "if T (arr ! j) < T (arr ! i) then swap_arr i j arr else arr"
    have len: "length ?a = length arr" by simp
    have loop_inv: "\<forall>m. i < m \<and> m < j + 1 \<and> m < length ?a \<longrightarrow> T (?a ! i) \<le> T (?a ! m)"
    proof (intro allI impI)
      fix m assume m: "i < m \<and> m < j + 1 \<and> m < length ?a"
      then have mlen: "m < length arr" and im: "i < m" and mj: "m \<le> j"
        using len by simp_all
      have ilen: "i < length arr" using im mlen by simp
      show "T (?a ! i) \<le> T (?a ! m)"
      proof (cases "T (arr ! j) < T (arr ! i)")
        case sw: True
        show ?thesis
        proof (cases "m = j")
          case True
          then show ?thesis using sw ilen mlen im by (simp add: swap_arr_nth)
        next
          case False
          then have "m < j" using mj by simp
          then have "T (arr ! i) \<le> T (arr ! m)" using "1.prems"(2) im mlen by blast
          then show ?thesis using sw ilen mlen im True False by (simp add: swap_arr_nth)
        qed
      next
        case nsw: False
        show ?thesis
        proof (cases "m = j")
          case True
          then show ?thesis using nsw by simp
        next
          case False
          then have "m < j" using mj by simp
          then have "T (arr ! i) \<le> T (arr ! m)" using "1.prems"(2) im mlen by blast
          then show ?thesis using nsw by simp
        qed
      qed
    qed
    have "T (sort_inner T i (j + 1) ?a ! i) \<le> T (sort_inner T i (j + 1) ?a ! k)"
      using "1.IH" [OF True _ loop_inv "1.prems"(3)] "1.prems"(1,4) len by simp
    then show ?thesis
      using True by (simp add: sort_inner_unfold)
  next
    case False
    then show ?thesis
      using "1.prems" by (simp add: sort_inner_done)
  qed
qed

lemma sort_outer_unfold:
  "i < length arr \<Longrightarrow> sort_outer T i arr = sort_outer T (i + 1) (sort_inner T i (i + 1) arr)"
  by (subst sort_outer.simps) simp

lemma sort_outer_done: "\<not> i < length arr \<Longrightarrow> sort_outer T i arr = arr"
  by (subst sort_outer.simps) simp

lemma mset_sort_outer: "mset (sort_outer T i arr) = mset arr"
proof (induction T i arr rule: sort_outer.induct)
  case (1 T i arr)
  show ?case
  proof (cases "i < length arr")
    case True
    then show ?thesis
      using "1.IH" [OF True] by (simp add: sort_outer_unfold mset_sort_inner)
  next
    case False
    then show ?thesis by (simp add: sort_outer_done)
  qed
qed

lemma length_sort_outer [simp]: "length (sort_outer T i arr) = length arr"
  using mset_sort_outer [of T i arr] by (metis size_mset)

lemma suffix_member:
  assumes len: "length r = length arr"
    and perm: "mset r = mset arr"
    and pre: "\<forall>k<i. r ! k = arr ! k"
    and m: "i \<le> m" "m < length r"
  shows "\<exists>m'. i \<le> m' \<and> m' < length arr \<and> r ! m = arr ! m'"
proof -
  have tk: "take i r = take i arr"
    using len pre m by (intro nth_take_lemma) simp_all
  have "mset (take i r) + mset (drop i r) = mset (take i arr) + mset (drop i arr)"
    using perm by (simp flip: mset_append)
  then have "mset (drop i r) = mset (drop i arr)"
    using tk by simp
  then have "set (drop i r) = set (drop i arr)"
    by (rule mset_eq_setD)
  moreover have "r ! m \<in> set (drop i r)"
  proof -
    have "drop i r ! (m - i) = r ! m" using m by simp
    moreover have "m - i < length (drop i r)" using m by simp
    ultimately show ?thesis by (metis nth_mem)
  qed
  ultimately have "r ! m \<in> set (drop i arr)" by simp
  then obtain n where n: "n < length (drop i arr)" "drop i arr ! n = r ! m"
    by (auto simp: in_set_conv_nth)
  then have "i + n < length arr" "arr ! (i + n) = r ! m" by simp_all
  then show ?thesis by (metis le_add1)
qed

lemma prefix_sorted_step:
  assumes loop_inv: "prefix_sorted T i arr" and i: "i < length arr"
  shows "prefix_sorted T (i + 1) (sort_inner T i (i + 1) arr)"
proof -
  let ?r = "sort_inner T i (i + 1) arr"
  have len: "length ?r = length arr" by simp
  have perm: "mset ?r = mset arr" by (simp add: mset_sort_inner)
  have pre: "\<forall>k<i. ?r ! k = arr ! k" by (simp add: sort_inner_prefix)
  have mn: "\<And>m. i < m \<Longrightarrow> m < length arr \<Longrightarrow> T (?r ! i) \<le> T (?r ! m)"
    by (rule sort_inner_min) simp_all
  show ?thesis
    unfolding prefix_sorted_def
  proof (intro allI impI)
    fix k m assume km: "k < i + 1 \<and> k < m \<and> m < length ?r"
    then have k: "k \<le> i" and km': "k < m" and m: "m < length arr" by simp_all
    show "T (?r ! k) \<le> T (?r ! m)"
    proof (cases "k = i")
      case True
      then show ?thesis using mn km' m by simp
    next
      case False
      then have ki: "k < i" using k by simp
      show ?thesis
      proof (cases "m < i")
        case True
        then have "?r ! m = arr ! m" "?r ! k = arr ! k" using pre ki by simp_all
        then show ?thesis using loop_inv ki km' m unfolding prefix_sorted_def by simp
      next
        case False
        then have "i \<le> m" by simp
        then obtain m' where m': "i \<le> m'" "m' < length arr" "?r ! m = arr ! m'"
          using suffix_member [OF len perm pre, of m] m by auto
        have "T (arr ! k) \<le> T (arr ! m')"
          using loop_inv ki m' unfolding prefix_sorted_def by simp
        then show ?thesis using m' pre ki by simp
      qed
    qed
  qed
qed

lemma sort_outer_sorted:
  "prefix_sorted T i arr \<Longrightarrow> k < m \<Longrightarrow> m < length arr \<Longrightarrow>
   T (sort_outer T i arr ! k) \<le> T (sort_outer T i arr ! m)"
proof (induction T i arr rule: sort_outer.induct)
  case (1 T i arr)
  show ?case
  proof (cases "i < length arr")
    case True
    have "prefix_sorted T (i + 1) (sort_inner T i (i + 1) arr)"
      using "1.prems"(1) True by (rule prefix_sorted_step)
    then show ?thesis
      using "1.IH" [OF True] "1.prems"(2,3) True by (simp add: sort_outer_unfold)
  next
    case False
    then have "k < i" "sort_outer T i arr = arr"
      using "1.prems"(2,3) by (simp_all add: sort_outer_done)
    then show ?thesis
      using "1.prems" unfolding prefix_sorted_def by simp
  qed
qed

lemma collect_take: "length arr \<le> P3_MAX_RSV \<Longrightarrow> collect arr l = arr @ take (P3_MAX_RSV - length arr) l"
proof (induction l arbitrary: arr)
  case Nil
  then show ?case by simp
next
  case (Cons it its)
  show ?case
  proof (cases "length arr < P3_MAX_RSV")
    case True
    then have "collect (arr @ [it]) its = (arr @ [it]) @ take (P3_MAX_RSV - length (arr @ [it])) its"
      by (intro Cons.IH) simp
    moreover have "P3_MAX_RSV - length arr = Suc (P3_MAX_RSV - length (arr @ [it]))"
      using True by simp
    ultimately show ?thesis using True by simp
  next
    case False
    then have "length arr = P3_MAX_RSV" using Cons.prems by simp
    then show ?thesis using Cons.IH [of arr] by simp
  qed
qed

lemma collect_all: "length l \<le> P3_MAX_RSV \<Longrightarrow> collect [] l = l"
  by (simp add: collect_take)

lemma mset_rm_order:
  "length (p3_rsv_list st) \<le> P3_MAX_RSV \<Longrightarrow> mset (rm_order st) = mset (p3_rsv_list st)"
  by (simp add: rm_order_def mset_sort_outer collect_all)

lemma rm_order_sorted:
  "k < m \<Longrightarrow> m < length (rm_order st) \<Longrightarrow>
   T_of st (rm_order st ! k) \<le> T_of st (rm_order st ! m)"
  unfolding rm_order_def
  by (rule sort_outer_sorted) (simp_all add: prefix_sorted_def)

subsection \<open>The assignment loop\<close>

lemma heap_upd_entry:
  "heap (upd_entry a f st) b = (if b = a then map_option f (heap st a) else heap st b)"
  by (simp add: upd_entry_def split: option.splits)

lemma list_upd_entry [simp]: "p3_rsv_list (upd_entry a f st) = p3_rsv_list st"
  by (simp add: upd_entry_def split: option.splits)

lemma tasks_upd_entry [simp]: "tasks (upd_entry a f st) = tasks st"
  by (simp add: upd_entry_def split: option.splits)

lemma heap_upd_task [simp]: "heap (upd_task t f st) = heap st"
  by (simp add: upd_task_def split: option.splits)

lemma list_upd_task [simp]: "p3_rsv_list (upd_task t f st) = p3_rsv_list st"
  by (simp add: upd_task_def split: option.splits)

lemma tasks_upd_task:
  "tasks (upd_task t f st) u = (if u = t then map_option f (tasks st t) else tasks st u)"
  by (simp add: upd_task_def split: option.splits)

lemma heap_assign_one:
  "heap (assign_one i a st) b =
     (if b = a then map_option (\<lambda>e. e\<lparr>prio := rank_prio i\<rparr>) (heap st a) else heap st b)"
  by (simp add: assign_one_def Let_def sched_setscheduler_nocheck_def heap_upd_entry
      split: option.splits)

lemma list_assign_one [simp]: "p3_rsv_list (assign_one i a st) = p3_rsv_list st"
  by (simp add: assign_one_def Let_def sched_setscheduler_nocheck_def split: option.splits)

lemma assign_loop_unfold:
  "i < length arr \<Longrightarrow> assign_loop i arr st = assign_loop (i + 1) arr (assign_one i (arr ! i) st)"
  by (subst assign_loop.simps) simp

lemma assign_loop_done: "\<not> i < length arr \<Longrightarrow> assign_loop i arr st = st"
  by (subst assign_loop.simps) simp

lemma list_assign_loop [simp]: "p3_rsv_list (assign_loop i arr st) = p3_rsv_list st"
proof (induction i arr st rule: assign_loop.induct)
  case (1 i arr st)
  show ?case
  proof (cases "i < length arr")
    case True
    then show ?thesis using "1.IH" [OF True] by (simp add: assign_loop_unfold)
  next
    case False
    then show ?thesis by (simp add: assign_loop_done)
  qed
qed

text \<open>The assignment loop writes nothing but \<open>prio\<close>.\<close>

lemma assign_loop_fields:
  "map_option (\<lambda>e. e\<lparr>prio := 0\<rparr>) (heap (assign_loop i arr st) b) =
   map_option (\<lambda>e. e\<lparr>prio := 0\<rparr>) (heap st b)"
proof (induction i arr st rule: assign_loop.induct)
  case (1 i arr st)
  show ?case
  proof (cases "i < length arr")
    case True
    have "map_option (\<lambda>e. e\<lparr>prio := 0\<rparr>) (heap (assign_one i (arr ! i) st) b) =
          map_option (\<lambda>e. e\<lparr>prio := 0\<rparr>) (heap st b)"
      by (cases "heap st (arr ! i)") (simp_all add: heap_assign_one)
    then show ?thesis using "1.IH" [OF True] True by (simp add: assign_loop_unfold)
  next
    case False
    then show ?thesis by (simp add: assign_loop_done)
  qed
qed

lemma assign_loop_other:
  "b \<notin> set (drop i arr) \<Longrightarrow> heap (assign_loop i arr st) b = heap st b"
proof (induction i arr st rule: assign_loop.induct)
  case (1 i arr st)
  show ?case
  proof (cases "i < length arr")
    case True
    have d: "drop i arr = arr ! i # drop (i + 1) arr"
      using True by (simp add: Cons_nth_drop_Suc)
    then have "b \<noteq> arr ! i" "b \<notin> set (drop (i + 1) arr)"
      using "1.prems" by auto
    then show ?thesis
      using "1.IH" [OF True] True by (simp add: assign_loop_unfold heap_assign_one)
  next
    case False
    then show ?thesis by (simp add: assign_loop_done)
  qed
qed

lemma assign_loop_prio:
  "distinct arr \<Longrightarrow> i \<le> k \<Longrightarrow> k < length arr \<Longrightarrow> heap st (arr ! k) = Some e \<Longrightarrow>
   heap (assign_loop i arr st) (arr ! k) = Some (e\<lparr>prio := rank_prio k\<rparr>)"
proof (induction i arr st rule: assign_loop.induct)
  case (1 i arr st)
  have ilen: "i < length arr" using "1.prems" by simp
  let ?st1 = "assign_one i (arr ! i) st"
  show ?case
  proof (cases "k = i")
    case True
    have "arr ! i \<notin> set (drop (i + 1) arr)"
      using "1.prems"(1) ilen
      by (metis Cons_nth_drop_Suc distinct.simps(2) distinct_drop Suc_eq_plus1)
    then have "heap (assign_loop (i + 1) arr ?st1) (arr ! i) = heap ?st1 (arr ! i)"
      by (rule assign_loop_other)
    then show ?thesis
      using True "1.prems"(4) ilen by (simp add: assign_loop_unfold heap_assign_one)
  next
    case False
    then have ik: "i + 1 \<le> k" using "1.prems"(2) by simp
    have "arr ! k \<noteq> arr ! i"
      using "1.prems"(1,3) ilen False by (simp add: nth_eq_iff_index_eq)
    then have "heap ?st1 (arr ! k) = Some e"
      using "1.prems"(4) by (simp add: heap_assign_one)
    then show ?thesis
      using "1.IH" [OF ilen "1.prems"(1) ik "1.prems"(3)] ilen by (simp add: assign_loop_unfold)
  qed
qed

lemma rank_prio_max: "rank_prio k = max 1 ((MAX_RT_PRIO - 1) - int k)"
  by (simp add: rank_prio_def Let_def max_def)

lemma rank_prio_strict:
  "k < m \<Longrightarrow> m < P3_MAX_RSV + 1 \<Longrightarrow> rank_prio m < rank_prio k"
  by (simp add: rank_prio_def Let_def MAX_RT_PRIO_def P3_MAX_RSV_def)

lemma rm_order_facts:
  assumes "valid_store st" and "length (p3_rsv_list st) \<le> P3_MAX_RSV"
  shows "set (rm_order st) = set (p3_rsv_list st)"
    and "length (rm_order st) = length (p3_rsv_list st)"
    and "distinct (rm_order st)"
proof -
  have m: "mset (rm_order st) = mset (p3_rsv_list st)"
    using assms(2) by (rule mset_rm_order)
  show "set (rm_order st) = set (p3_rsv_list st)" using m by (rule mset_eq_setD)
  show "length (rm_order st) = length (p3_rsv_list st)" using m by (rule mset_eq_length)
  show "distinct (rm_order st)"
    using m assms(1) by (metis mset_eq_imp_distinct_iff valid_store_def)
qed

lemma reassign_prio:
  assumes "valid_store st" and "length (p3_rsv_list st) \<le> P3_MAX_RSV" and "k < length (rm_order st)"
  shows "prio (deref (p3_reassign_rm_prios_locked st) (rm_order st ! k)) = rank_prio k"
proof -
  have "rm_order st ! k \<in> set (p3_rsv_list st)"
    using rm_order_facts(1) [OF assms(1,2)] assms(3) by (metis nth_mem)
  then obtain e where e: "heap st (rm_order st ! k) = Some e"
    using assms(1) by (auto simp: valid_store_def)
  have "heap (assign_loop 0 (rm_order st) st) (rm_order st ! k) = Some (e\<lparr>prio := rank_prio k\<rparr>)"
    using rm_order_facts(3) [OF assms(1,2)] _ assms(3) e by (rule assign_loop_prio) simp
  then show ?thesis
    by (simp add: p3_reassign_rm_prios_locked_def deref_def)
qed

lemma reassign_T_ns:
  "map_option T_ns (heap (p3_reassign_rm_prios_locked st) a) = map_option T_ns (heap st a)"
proof -
  have "map_option T_ns (map_option (\<lambda>e. e\<lparr>prio := 0\<rparr>) (heap (assign_loop 0 (rm_order st) st) a)) =
        map_option T_ns (map_option (\<lambda>e. e\<lparr>prio := 0\<rparr>) (heap st a))"
    by (simp only: assign_loop_fields)
  then show ?thesis
    by (simp add: p3_reassign_rm_prios_locked_def option.map_comp comp_def)
qed

text \<open>
  Claim C1. For a well-formed store of at most \<open>P3_MAX_RSV\<close> reservations, one pass of
  \<open>p3_reassign_rm_prios_locked\<close> ranks all of them (\<open>rm_order\<close> is a permutation of
  the list) by ascending period, gives the entry of rank \<open>k\<close> the priority
  \<open>(MAX_RT_PRIO - 1) - k\<close> clamped below at 1, so that priorities strictly decrease with
  the rank and, of two reservations with different periods, the one with the smaller
  period gets the higher priority. The pass leaves the periods as they were.
\<close>

theorem C1_rm_priority_assignment:
  assumes "valid_store st" and "length (p3_rsv_list st) \<le> P3_MAX_RSV"
  shows "mset (rm_order st) = mset (p3_rsv_list st)
    \<and> (\<forall>k m. k < m \<and> m < length (rm_order st) \<longrightarrow>
          T_of st (rm_order st ! k) \<le> T_of st (rm_order st ! m))
    \<and> (\<forall>k. k < length (rm_order st) \<longrightarrow>
          prio (deref (p3_reassign_rm_prios_locked st) (rm_order st ! k)) =
            max 1 ((MAX_RT_PRIO - 1) - int k))
    \<and> (\<forall>k m. k < m \<and> m < length (rm_order st) \<longrightarrow>
          prio (deref (p3_reassign_rm_prios_locked st) (rm_order st ! m)) <
          prio (deref (p3_reassign_rm_prios_locked st) (rm_order st ! k)))
    \<and> (\<forall>a \<in> set (p3_rsv_list st). \<forall>b \<in> set (p3_rsv_list st).
          T_of st a < T_of st b \<longrightarrow>
          prio (deref (p3_reassign_rm_prios_locked st) b) <
          prio (deref (p3_reassign_rm_prios_locked st) a))
    \<and> (\<forall>a. map_option T_ns (heap (p3_reassign_rm_prios_locked st) a) = map_option T_ns (heap st a))"
proof -
  let ?arr = "rm_order st" and ?st' = "p3_reassign_rm_prios_locked st"
  note facts = rm_order_facts [OF assms]
  have len: "length ?arr \<le> P3_MAX_RSV" using facts(2) assms(2) by simp
  have pr: "\<And>k. k < length ?arr \<Longrightarrow> prio (deref ?st' (?arr ! k)) = rank_prio k"
    using assms by (rule reassign_prio)
  have strict: "\<And>k m. k < m \<Longrightarrow> m < length ?arr \<Longrightarrow>
      prio (deref ?st' (?arr ! m)) < prio (deref ?st' (?arr ! k))"
  proof -
    fix k m assume km: "k < m" "m < length ?arr"
    then have "rank_prio m < rank_prio k" using len by (intro rank_prio_strict) simp_all
    then show "prio (deref ?st' (?arr ! m)) < prio (deref ?st' (?arr ! k))"
      using pr km by simp
  qed
  have c1: "mset ?arr = mset (p3_rsv_list st)" using assms(2) by (rule mset_rm_order)
  have c2: "\<forall>k m. k < m \<and> m < length ?arr \<longrightarrow> T_of st (?arr ! k) \<le> T_of st (?arr ! m)"
    by (simp add: rm_order_sorted)
  have c3: "\<forall>k. k < length ?arr \<longrightarrow>
      prio (deref ?st' (?arr ! k)) = max 1 ((MAX_RT_PRIO - 1) - int k)"
    using pr by (simp add: rank_prio_max)
  have c4: "\<forall>k m. k < m \<and> m < length ?arr \<longrightarrow>
      prio (deref ?st' (?arr ! m)) < prio (deref ?st' (?arr ! k))"
    using strict by simp
  have c5: "\<forall>a \<in> set (p3_rsv_list st). \<forall>b \<in> set (p3_rsv_list st).
      T_of st a < T_of st b \<longrightarrow> prio (deref ?st' b) < prio (deref ?st' a)"
  proof (intro ballI impI)
    fix a b assume a: "a \<in> set (p3_rsv_list st)" and b: "b \<in> set (p3_rsv_list st)"
      and lt: "T_of st a < T_of st b"
    obtain i where i: "i < length ?arr" "?arr ! i = a"
      using a facts(1) by (metis in_set_conv_nth)
    obtain j where j: "j < length ?arr" "?arr ! j = b"
      using b facts(1) by (metis in_set_conv_nth)
    have "i < j"
    proof (rule ccontr)
      assume "\<not> i < j"
      then have "j < i \<or> j = i" by auto
      then have "T_of st b \<le> T_of st a"
        using rm_order_sorted [of j i st] i j by auto
      then show False using lt by simp
    qed
    then show "prio (deref ?st' b) < prio (deref ?st' a)"
      using strict [of i j] i j by simp
  qed
  have c6: "\<forall>a. map_option T_ns (heap ?st' a) = map_option T_ns (heap st a)"
    by (simp add: reassign_T_ns)
  from c1 c2 c3 c4 c5 c6 show ?thesis by blast
qed

lemma rm_order_demo: "rm_order demo_store = [1, 0]"
  by (simp add: rm_order_def demo_store_def sort_outer_unfold sort_outer_done sort_inner_unfold
      sort_inner_done swap_arr_def T_of_def deref_def new_entry_def P3_MAX_RSV_def)

theorem C1_witness:
  "valid_store demo_store \<and> length (p3_rsv_list demo_store) \<le> P3_MAX_RSV
   \<and> rm_order demo_store = [1, 0]
   \<and> prio (deref (p3_reassign_rm_prios_locked demo_store) 1) = 99
   \<and> prio (deref (p3_reassign_rm_prios_locked demo_store) 0) = 98"
proof -
  have h1: "valid_store demo_store"
    by (simp add: valid_store_def demo_store_def)
  have h2: "length (p3_rsv_list demo_store) \<le> P3_MAX_RSV"
    by (simp add: demo_store_def P3_MAX_RSV_def)
  have "\<forall>k. k < length (rm_order demo_store) \<longrightarrow>
          prio (deref (p3_reassign_rm_prios_locked demo_store) (rm_order demo_store ! k)) =
            max 1 ((MAX_RT_PRIO - 1) - int k)"
    using C1_rm_priority_assignment [OF h1 h2] by blast
  then have key: "k < 2 \<Longrightarrow>
      prio (deref (p3_reassign_rm_prios_locked demo_store) ([1, 0] ! k)) =
        max 1 ((MAX_RT_PRIO - 1) - int k)" for k
    by (simp add: rm_order_demo)
  have "prio (deref (p3_reassign_rm_prios_locked demo_store) 1) = 99"
    using key [of 0] by (simp add: MAX_RT_PRIO_def)
  moreover have "prio (deref (p3_reassign_rm_prios_locked demo_store) 0) = 98"
    using key [of 1] by (simp add: MAX_RT_PRIO_def)
  ultimately show ?thesis
    using h1 h2 by (simp add: rm_order_demo)
qed

section \<open>Registration\<close>

lemma ktime_set_small:
  "0 \<le> n \<Longrightarrow> n < 1000000000 \<Longrightarrow> ktime_set 0 n = n"
  by (simp add: ktime_set_def KTIME_SEC_MAX_def KTIME_MAX_def NSEC_PER_SEC_def s64_def)

text \<open>
  On a \<open>timespec\<close> in normal form below the saturation bound, \<open>ns_of\<close> is the exact
  duration in nanoseconds.
\<close>

lemma ns_of_exact:
  assumes "0 \<le> tv_sec ts" and "tv_sec ts < KTIME_SEC_MAX"
    and "0 \<le> tv_nsec ts" and "tv_nsec ts < NSEC_PER_SEC"
  shows "ns_of ts = tv_sec ts * NSEC_PER_SEC + tv_nsec ts"
proof -
  let ?x = "tv_sec ts * NSEC_PER_SEC + tv_nsec ts"
  have "tv_sec ts \<le> 9223372035"
    using assms(2) by (simp add: KTIME_SEC_MAX_def KTIME_MAX_def NSEC_PER_SEC_def)
  then have "tv_sec ts * 1000000000 \<le> 9223372035 * 1000000000"
    by (intro mult_right_mono) simp_all
  then have up: "?x < 2 ^ 63"
    using assms(4) by (simp add: NSEC_PER_SEC_def)
  have lo: "0 \<le> ?x"
    using assms(1,3) by (simp add: NSEC_PER_SEC_def)
  have "(?x + 2 ^ 63) mod 2 ^ 64 = ?x + 2 ^ 63"
    using lo up by (intro mod_pos_pos_trivial) simp_all
  then show ?thesis
    using assms(2) by (simp add: ns_of_def ktime_set_def s64_def)
qed

lemma ns_of_small:
  "0 \<le> n \<Longrightarrow> n < 1000000000 \<Longrightarrow> ns_of \<lparr>tv_sec = 0, tv_nsec = n\<rparr> = n"
  by (simp add: ns_of_def ktime_set_small)

subsection \<open>Frame facts\<close>

lemma find_in_heap_eq:
  "\<forall>a \<in> set l. map_option pid (heap st' a) = map_option pid (heap st a) \<and> heap st a \<noteq> None \<Longrightarrow>
   find_in st' p l = find_in st p l"
  by (induction l) (auto simp: deref_def)

lemma find_in_same_heap: "heap st' = heap st \<Longrightarrow> find_in st' p l = find_in st p l"
  by (induction l) (simp_all add: deref_def)

lemma find_get_task [simp]: "p3_find_locked (get_task_struct t st) p = p3_find_locked st p"
  unfolding p3_find_locked_def by (rule trans [OF find_in_same_heap]) (simp_all add: get_task_struct_def)

lemma list_get_task [simp]: "p3_rsv_list (get_task_struct t st) = p3_rsv_list st"
  by (simp add: get_task_struct_def)

lemma heap_get_task [simp]: "heap (get_task_struct t st) = heap st"
  by (simp add: get_task_struct_def)

lemma list_put_task [simp]: "p3_rsv_list (put_task_struct t st) = p3_rsv_list st"
  by (simp add: put_task_struct_def)

lemma heap_put_task [simp]: "heap (put_task_struct t st) = heap st"
  by (simp add: put_task_struct_def)

lemma put_get_task: "tasks st t = Some ts \<Longrightarrow> put_task_struct t (get_task_struct t st) = st"
  by (simp add: put_task_struct_def get_task_struct_def upd_task_def fun_upd_idem)

lemma pid_task_Some: "pid_task st p = Some t \<Longrightarrow> t = p \<and> tasks st p \<noteq> None"
  by (simp add: pid_task_def split: option.splits)

subsection \<open>The failure paths of set\_rsv\<close>

lemma set_rsv_EFAULT:
  "C = None \<or> T = None \<Longrightarrow> set_rsv cur p0 C T alloc now st = (Inl EFAULT, st)"
  by (cases C) (auto simp: set_rsv_def Let_def)

lemma set_rsv_EINVAL:
  "args_invalid c t \<Longrightarrow> set_rsv cur p0 (Some c) (Some t) alloc now st = (Inl EINVAL, st)"
  by (simp add: set_rsv_def)

lemma set_rsv_ESRCH:
  "\<not> args_invalid c t \<Longrightarrow> pid_task st (target_pid cur p0) = None \<Longrightarrow>
   set_rsv cur p0 (Some c) (Some t) alloc now st = (Inl ESRCH, st)"
  by (simp add: set_rsv_def)

lemma set_rsv_EBUSY:
  assumes "\<not> args_invalid c t" and "pid_task st (target_pid cur p0) \<noteq> None"
    and "p3_find_locked st (target_pid cur p0) \<noteq> None"
  shows "set_rsv cur p0 (Some c) (Some t) alloc now st = (Inl EBUSY, st)"
proof -
  obtain tk where tk: "pid_task st (target_pid cur p0) = Some tk" using assms(2) by auto
  then obtain ts where "tasks st tk = Some ts" by (auto dest: pid_task_Some)
  then have "put_task_struct tk (get_task_struct tk st) = st" by (rule put_get_task)
  then show ?thesis
    using assms(1,3) tk by (simp add: set_rsv_def Let_def)
qed

lemma set_rsv_ENOSPC:
  assumes "\<not> args_invalid c t" and "pid_task st (target_pid cur p0) \<noteq> None"
    and "p3_find_locked st (target_pid cur p0) = None"
    and "P3_MAX_RSV \<le> length (p3_rsv_list st)"
  shows "set_rsv cur p0 (Some c) (Some t) alloc now st = (Inl ENOSPC, st)"
proof -
  obtain tk where tk: "pid_task st (target_pid cur p0) = Some tk" using assms(2) by auto
  then obtain ts where "tasks st tk = Some ts" by (auto dest: pid_task_Some)
  then have "put_task_struct tk (get_task_struct tk st) = st" by (rule put_get_task)
  then show ?thesis
    using assms(1,3,4) tk by (simp add: set_rsv_def Let_def)
qed

lemma set_rsv_ENOMEM:
  assumes "\<not> args_invalid c t" and "pid_task st (target_pid cur p0) \<noteq> None"
    and "p3_find_locked st (target_pid cur p0) = None"
    and "length (p3_rsv_list st) < P3_MAX_RSV"
  shows "set_rsv cur p0 (Some c) (Some t) None now st = (Inl ENOMEM, st)"
proof -
  obtain tk where tk: "pid_task st (target_pid cur p0) = Some tk" using assms(2) by auto
  then obtain ts where "tasks st tk = Some ts" by (auto dest: pid_task_Some)
  then have "put_task_struct tk (get_task_struct tk st) = st" by (rule put_get_task)
  then show ?thesis
    using assms(1,3,4) tk by (simp add: set_rsv_def Let_def)
qed

lemma set_rsv_success:
  assumes "\<not> args_invalid c t" and "pid_task st (target_pid cur p0) \<noteq> None"
    and "p3_find_locked st (target_pid cur p0) = None"
    and "length (p3_rsv_list st) < P3_MAX_RSV"
  shows "set_rsv cur p0 (Some c) (Some t) (Some e) now st =
     (Inr (), p3_reassign_rm_prios_locked
        ((get_task_struct (target_pid cur p0) st)
           \<lparr>heap := (heap st)(e \<mapsto> new_entry (target_pid cur p0) (target_pid cur p0) (ns_of c) (ns_of t) now),
            p3_rsv_list := p3_rsv_list st @ [e]\<rparr>))"
proof -
  obtain tk where tk: "pid_task st (target_pid cur p0) = Some tk" using assms(2) by auto
  then have "tk = target_pid cur p0" by (auto dest: pid_task_Some)
  then show ?thesis
    using assms(1,3,4) tk by (simp add: set_rsv_def Let_def)
qed

text \<open>Every failure of \<open>set_rsv\<close> leaves the whole state as it was.\<close>

lemma set_rsv_failure_frame:
  "fst (set_rsv cur p0 C T alloc now st) = Inl err \<Longrightarrow> snd (set_rsv cur p0 C T alloc now st) = st"
proof (cases "C = None \<or> T = None")
  case True
  then show ?thesis by (simp add: set_rsv_EFAULT)
next
  case False
  then obtain c t where ct: "C = Some c" "T = Some t" by auto
  assume f: "fst (set_rsv cur p0 C T alloc now st) = Inl err"
  show ?thesis
  proof (cases "args_invalid c t")
    case True
    then show ?thesis using ct by (simp add: set_rsv_EINVAL)
  next
    case ok: False
    show ?thesis
    proof (cases "pid_task st (target_pid cur p0) = None")
      case True
      then show ?thesis using ct ok by (simp add: set_rsv_ESRCH)
    next
      case res: False
      show ?thesis
      proof (cases "p3_find_locked st (target_pid cur p0) = None")
        case False
        then show ?thesis using ct ok res by (simp add: set_rsv_EBUSY)
      next
        case nf: True
        show ?thesis
        proof (cases "P3_MAX_RSV \<le> length (p3_rsv_list st)")
          case True
          then show ?thesis using ct ok res nf by (simp add: set_rsv_ENOSPC)
        next
          case False
          then have lt: "length (p3_rsv_list st) < P3_MAX_RSV" by simp
          show ?thesis
          proof (cases alloc)
            case None
            then show ?thesis using ct ok res nf lt by (simp add: set_rsv_ENOMEM)
          next
            case (Some e)
            then show ?thesis using ct ok res nf lt f by (simp add: set_rsv_success)
          qed
        qed
      qed
    qed
  qed
qed

text \<open>
  Claim C5. A \<open>set_rsv\<close> call whose arguments are readable and whose computation time
  \<open>C\<close> is non-positive, whose period \<open>T\<close> is non-positive, or whose \<open>C\<close> exceeds
  \<open>T\<close> (as the nanosecond durations the call computes from the two \<open>timespec\<close>
  values), or one of whose \<open>timespec\<close> fields is negative, fails with \<open>EINVAL\<close> and
  returns the state it was given: no entry is inserted, no timer armed, no priority
  recomputed.
\<close>

theorem C5_invalid_arguments:
  assumes "ns_of c \<le> 0 \<or> ns_of t \<le> 0 \<or> ns_of c > ns_of t
         \<or> tv_sec c < 0 \<or> tv_nsec c < 0 \<or> tv_sec t < 0 \<or> tv_nsec t < 0"
  shows "set_rsv cur p0 (Some c) (Some t) alloc now st = (Inl EINVAL, st)"
  using assms by (intro set_rsv_EINVAL) (auto simp: args_invalid_def)

theorem C5_witness:
  "ns_of \<lparr>tv_sec = 0, tv_nsec = 10000000\<rparr> < ns_of \<lparr>tv_sec = 0, tv_nsec = 20000000\<rparr>
   \<and> set_rsv 100 100 (Some \<lparr>tv_sec = 0, tv_nsec = 20000000\<rparr>)
        (Some \<lparr>tv_sec = 0, tv_nsec = 10000000\<rparr>) (Some 0) 0 (boot demo_tasks) =
       (Inl EINVAL, boot demo_tasks)"
proof -
  have h: "ns_of \<lparr>tv_sec = 0, tv_nsec = 10000000\<rparr> < ns_of \<lparr>tv_sec = 0, tv_nsec = 20000000\<rparr>"
    by (simp add: ns_of_small)
  show ?thesis
    using h C5_invalid_arguments [of "\<lparr>tv_sec = 0, tv_nsec = 20000000\<rparr>"
        "\<lparr>tv_sec = 0, tv_nsec = 10000000\<rparr>" 100 100 "Some 0" 0 "boot demo_tasks"]
    by blast
qed

text \<open>
  Claim C6. When the task id already has an active reservation (the lookup finds an
  entry \<open>e\<close>), a further \<open>set_rsv\<close> call for it with well-formed arguments (readable,
  passing the argument checks, the task id resolving to a live task) fails with
  \<open>EBUSY\<close> and returns the state it was given, so the existing reservation keeps its
  \<open>C\<close>, \<open>T\<close>, priority, sequence counter and timer.
\<close>

theorem C6_duplicate_registration:
  assumes "p3_find_locked st (target_pid cur p0) = Some e"
    and "\<not> args_invalid c t"
    and "pid_task st (target_pid cur p0) \<noteq> None"
  shows "set_rsv cur p0 (Some c) (Some t) alloc now st = (Inl EBUSY, st)"
  using assms by (intro set_rsv_EBUSY) simp_all

theorem C6_witness:
  "p3_find_locked demo_store (target_pid 100 100) = Some 0
   \<and> \<not> args_invalid \<lparr>tv_sec = 0, tv_nsec = 3000000\<rparr> \<lparr>tv_sec = 0, tv_nsec = 8000000\<rparr>
   \<and> pid_task demo_store (target_pid 100 100) \<noteq> None
   \<and> set_rsv 100 100 (Some \<lparr>tv_sec = 0, tv_nsec = 3000000\<rparr>)
        (Some \<lparr>tv_sec = 0, tv_nsec = 8000000\<rparr>) (Some 2) 0 demo_store =
       (Inl EBUSY, demo_store)"
proof -
  have f: "p3_find_locked demo_store (target_pid 100 100) = Some 0"
    by (simp add: p3_find_locked_def demo_store_def target_pid_def deref_def new_entry_def)
  have v: "\<not> args_invalid \<lparr>tv_sec = 0, tv_nsec = 3000000\<rparr> \<lparr>tv_sec = 0, tv_nsec = 8000000\<rparr>"
    by (simp add: args_invalid_def ns_of_small)
  have r: "pid_task demo_store (target_pid 100 100) \<noteq> None"
    by (simp add: pid_task_def demo_store_def demo_tasks_def target_pid_def)
  show ?thesis
    using f v r C6_duplicate_registration [OF f v r, of "Some 2" 0] by blast
qed

text \<open>
  Claim C10. \<open>set_rsv\<close> applies its checks in a fixed order: unreadable arguments
  (\<open>EFAULT\<close>), argument validation (\<open>EINVAL\<close>), task resolution (\<open>ESRCH\<close>), duplicate
  detection (\<open>EBUSY\<close>), capacity (\<open>ENOSPC\<close>), allocation (\<open>ENOMEM\<close>); the first
  check that fails decides the result, whatever the later ones would say. In
  particular invalid arguments for an unknown task give \<open>EINVAL\<close>. Every result other
  than success returns the state the call was given.
\<close>

theorem C10_error_precedence:
  "(C = None \<or> T = None \<longrightarrow> set_rsv cur p0 C T alloc now st = (Inl EFAULT, st))
   \<and> (C = Some c \<and> T = Some t \<longrightarrow>
       (args_invalid c t \<longrightarrow> set_rsv cur p0 C T alloc now st = (Inl EINVAL, st))
     \<and> (\<not> args_invalid c t \<longrightarrow>
         (pid_task st (target_pid cur p0) = None \<longrightarrow>
            set_rsv cur p0 C T alloc now st = (Inl ESRCH, st))
       \<and> (pid_task st (target_pid cur p0) \<noteq> None \<longrightarrow>
           (p3_find_locked st (target_pid cur p0) \<noteq> None \<longrightarrow>
              set_rsv cur p0 C T alloc now st = (Inl EBUSY, st))
         \<and> (p3_find_locked st (target_pid cur p0) = None \<longrightarrow>
             (P3_MAX_RSV \<le> length (p3_rsv_list st) \<longrightarrow>
                set_rsv cur p0 C T alloc now st = (Inl ENOSPC, st))
           \<and> (length (p3_rsv_list st) < P3_MAX_RSV \<longrightarrow>
               (alloc = None \<longrightarrow> set_rsv cur p0 C T alloc now st = (Inl ENOMEM, st))
             \<and> (alloc \<noteq> None \<longrightarrow> fst (set_rsv cur p0 C T alloc now st) = Inr ()))))))
   \<and> (fst (set_rsv cur p0 C T alloc now st) \<noteq> Inr () \<longrightarrow>
        snd (set_rsv cur p0 C T alloc now st) = st)"
proof -
  have last: "fst (set_rsv cur p0 C T alloc now st) \<noteq> Inr () \<longrightarrow>
        snd (set_rsv cur p0 C T alloc now st) = st"
  proof
    assume "fst (set_rsv cur p0 C T alloc now st) \<noteq> Inr ()"
    then obtain err where "fst (set_rsv cur p0 C T alloc now st) = Inl err"
      by (cases "fst (set_rsv cur p0 C T alloc now st)") auto
    then show "snd (set_rsv cur p0 C T alloc now st) = st"
      by (rule set_rsv_failure_frame)
  qed
  have succ: "\<not> args_invalid c t \<Longrightarrow> pid_task st (target_pid cur p0) \<noteq> None \<Longrightarrow>
      p3_find_locked st (target_pid cur p0) = None \<Longrightarrow> length (p3_rsv_list st) < P3_MAX_RSV \<Longrightarrow>
      alloc \<noteq> None \<Longrightarrow> fst (set_rsv cur p0 (Some c) (Some t) alloc now st) = Inr ()"
    by (cases alloc) (simp_all add: set_rsv_success)
  show ?thesis
  proof (intro conjI impI)
    assume "C = None \<or> T = None"
    then show "set_rsv cur p0 C T alloc now st = (Inl EFAULT, st)"
      by (rule set_rsv_EFAULT)
  next
    assume "C = Some c \<and> T = Some t" "args_invalid c t"
    then show "set_rsv cur p0 C T alloc now st = (Inl EINVAL, st)"
      by (simp add: set_rsv_EINVAL)
  next
    assume "C = Some c \<and> T = Some t" "\<not> args_invalid c t"
      "pid_task st (target_pid cur p0) = None"
    then show "set_rsv cur p0 C T alloc now st = (Inl ESRCH, st)"
      by (simp add: set_rsv_ESRCH)
  next
    assume "C = Some c \<and> T = Some t" "\<not> args_invalid c t"
      "pid_task st (target_pid cur p0) \<noteq> None" "p3_find_locked st (target_pid cur p0) \<noteq> None"
    then show "set_rsv cur p0 C T alloc now st = (Inl EBUSY, st)"
      using set_rsv_EBUSY [of c t st cur p0 alloc now] by simp
  next
    assume "C = Some c \<and> T = Some t" "\<not> args_invalid c t"
      "pid_task st (target_pid cur p0) \<noteq> None" "p3_find_locked st (target_pid cur p0) = None"
      "P3_MAX_RSV \<le> length (p3_rsv_list st)"
    then show "set_rsv cur p0 C T alloc now st = (Inl ENOSPC, st)"
      using set_rsv_ENOSPC [of c t st cur p0 alloc now] by simp
  next
    assume "C = Some c \<and> T = Some t" "\<not> args_invalid c t"
      "pid_task st (target_pid cur p0) \<noteq> None" "p3_find_locked st (target_pid cur p0) = None"
      "length (p3_rsv_list st) < P3_MAX_RSV" "alloc = None"
    then show "set_rsv cur p0 C T alloc now st = (Inl ENOMEM, st)"
      using set_rsv_ENOMEM [of c t st cur p0 now] by simp
  next
    assume "C = Some c \<and> T = Some t" "\<not> args_invalid c t"
      "pid_task st (target_pid cur p0) \<noteq> None" "p3_find_locked st (target_pid cur p0) = None"
      "length (p3_rsv_list st) < P3_MAX_RSV" "alloc \<noteq> None"
    then show "fst (set_rsv cur p0 C T alloc now st) = Inr ()"
      using succ by simp
  next
    assume "fst (set_rsv cur p0 C T alloc now st) \<noteq> Inr ()"
    then show "snd (set_rsv cur p0 C T alloc now st) = st"
      using last by simp
  qed
qed

theorem C10_witness:
  "args_invalid \<lparr>tv_sec = 0, tv_nsec = 20000000\<rparr> \<lparr>tv_sec = 0, tv_nsec = 10000000\<rparr>
   \<and> pid_task (boot demo_tasks) (target_pid 1 999) = None
   \<and> set_rsv 1 999 (Some \<lparr>tv_sec = 0, tv_nsec = 20000000\<rparr>)
        (Some \<lparr>tv_sec = 0, tv_nsec = 10000000\<rparr>) None 0 (boot demo_tasks) =
       (Inl EINVAL, boot demo_tasks)"
proof -
  let ?c = "\<lparr>tv_sec = 0, tv_nsec = 20000000\<rparr>" and ?t = "\<lparr>tv_sec = 0, tv_nsec = 10000000\<rparr>"
  have a: "args_invalid ?c ?t"
    by (simp add: args_invalid_def ns_of_small)
  have u: "pid_task (boot demo_tasks) (target_pid 1 999) = None"
    by (simp add: pid_task_def boot_def demo_tasks_def target_pid_def)
  have "set_rsv 1 999 (Some ?c) (Some ?t) None 0 (boot demo_tasks) = (Inl EINVAL, boot demo_tasks)"
    using a C10_error_precedence [of "Some ?c" "Some ?t" 1 999 None 0 "boot demo_tasks" ?c ?t]
    by blast
  then show ?thesis
    using a u by blast
qed

section \<open>The invariant of the reachable states\<close>

subsection \<open>Operations that keep the list and every entry's pid\<close>

lemma pid_frame_refl [simp]: "pid_frame st st"
  by (simp add: pid_frame_def)

lemma pid_frame_trans: "pid_frame st st1 \<Longrightarrow> pid_frame st1 st2 \<Longrightarrow> pid_frame st st2"
  by (simp add: pid_frame_def)

lemma pid_frame_deref: "pid_frame st st' \<Longrightarrow> pid (deref st' a) = pid (deref st a)"
proof -
  assume "pid_frame st st'"
  then have "map_option pid (heap st' a) = map_option pid (heap st a)"
    by (simp add: pid_frame_def)
  then show ?thesis
    by (cases "heap st a"; cases "heap st' a") (simp_all add: deref_def)
qed

lemma pid_frame_dom: "pid_frame st st' \<Longrightarrow> heap st' a = None \<longleftrightarrow> heap st a = None"
proof -
  assume "pid_frame st st'"
  then have "map_option pid (heap st' a) = map_option pid (heap st a)"
    by (simp add: pid_frame_def)
  then show ?thesis
    by (cases "heap st a"; cases "heap st' a") simp_all
qed

lemma pid_frame_find_in: "pid_frame st st' \<Longrightarrow> find_in st' p l = find_in st p l"
  by (induction l) (simp_all add: pid_frame_deref)

lemma pid_frame_find: "pid_frame st st' \<Longrightarrow> p3_find_locked st' p = p3_find_locked st p"
  by (simp add: p3_find_locked_def pid_frame_find_in) (simp add: pid_frame_def)

lemma pid_frame_inv: "pid_frame st st' \<Longrightarrow> store_inv st \<Longrightarrow> store_inv st'"
proof -
  assume f: "pid_frame st st'" and i: "store_inv st"
  have l: "p3_rsv_list st' = p3_rsv_list st" using f by (simp add: pid_frame_def)
  have "valid_store st'"
    using i l by (simp add: store_inv_def valid_store_def pid_frame_dom [OF f])
  moreover have "(\<lambda>a. pid (deref st' a)) = (\<lambda>a. pid (deref st a))"
    by (rule ext) (rule pid_frame_deref [OF f])
  ultimately show ?thesis
    using i l by (simp add: store_inv_def)
qed

lemma pid_frame_upd_entry:
  "(\<And>x. pid (f x) = pid x) \<Longrightarrow> pid_frame st (upd_entry a f st)"
  by (simp add: pid_frame_def heap_upd_entry) (cases "heap st a", simp_all)

lemma pid_frame_upd_task [simp]: "pid_frame st (upd_task t f st)"
  by (simp add: pid_frame_def)

lemma pid_frame_tasks [simp]: "pid_frame st (st\<lparr>tasks := ts\<rparr>)"
  by (simp add: pid_frame_def)

lemma pid_frame_fold_upd_task: "pid_frame st (fold (\<lambda>t. upd_task t f) ws st)"
proof (induction ws arbitrary: st)
  case Nil
  show ?case by simp
next
  case (Cons w ws)
  have "pid_frame st (upd_task w f st)" by simp
  moreover have "pid_frame (upd_task w f st) (fold (\<lambda>t. upd_task t f) ws (upd_task w f st))"
    by (rule Cons.IH)
  ultimately have "pid_frame st (fold (\<lambda>t. upd_task t f) ws (upd_task w f st))"
    by (rule pid_frame_trans)
  then show ?case
    by simp
qed

lemma pid_frame_wake_up_all: "pid_frame st (wake_up_all e st)"
  unfolding wake_up_all_def Let_def
  by (rule pid_frame_trans [OF pid_frame_upd_entry pid_frame_fold_upd_task]) simp

lemma pid_frame_assign_loop: "pid_frame st (assign_loop i arr st)"
proof -
  have "map_option pid (heap (assign_loop i arr st) a) = map_option pid (heap st a)" for a
  proof -
    have "map_option pid (map_option (\<lambda>e. e\<lparr>prio := 0\<rparr>) (heap (assign_loop i arr st) a)) =
          map_option pid (map_option (\<lambda>e. e\<lparr>prio := 0\<rparr>) (heap st a))"
      by (simp only: assign_loop_fields)
    then show ?thesis
      by (simp add: option.map_comp comp_def)
  qed
  then show ?thesis
    by (simp add: pid_frame_def)
qed

lemma pid_frame_reassign: "pid_frame st (p3_reassign_rm_prios_locked st)"
  by (simp add: p3_reassign_rm_prios_locked_def pid_frame_assign_loop)

lemma pid_frame_timer_cb: "pid_frame st (snd (p3_timer_cb now e st))"
proof (cases "canceled (deref st e)")
  case True
  then show ?thesis by (simp add: p3_timer_cb_def)
next
  case False
  let ?st1 = "upd_entry e (\<lambda>x. x\<lparr>period_seq := period_seq x + 1\<rparr>) st"
  let ?st2 = "upd_entry e (\<lambda>x. x\<lparr>timer := hrtimer_forward_now now (T_ns x) (timer x)\<rparr>) ?st1"
  have "pid_frame st ?st1" by (rule pid_frame_upd_entry) simp
  moreover have "pid_frame ?st1 ?st2" by (rule pid_frame_upd_entry) simp
  moreover have "pid_frame ?st2 (wake_up_all e ?st2)" by (rule pid_frame_wake_up_all)
  ultimately have "pid_frame st (wake_up_all e ?st2)"
    by (blast intro: pid_frame_trans)
  then show ?thesis
    using False by (simp add: p3_timer_cb_def Let_def)
qed

lemma pid_frame_run_hrtimer: "pid_frame st (run_hrtimer now e st)"
proof (cases "heap st e")
  case None
  then show ?thesis by (simp add: run_hrtimer_def)
next
  case (Some ent)
  show ?thesis
  proof (cases "\<not> enqueued (timer ent) \<or> now < expires (timer ent)")
    case True
    then show ?thesis using Some by (simp add: run_hrtimer_def)
  next
    case False
    let ?st0 = "upd_entry e (\<lambda>x. x\<lparr>timer := (timer x)\<lparr>enqueued := False\<rparr>\<rparr>) st"
    let ?st1 = "snd (p3_timer_cb now e ?st0)"
    let ?st2 = "upd_entry e (\<lambda>x. x\<lparr>timer := (timer x)\<lparr>enqueued := True\<rparr>\<rparr>) ?st1"
    have a: "pid_frame st ?st0" by (rule pid_frame_upd_entry) simp
    have b: "pid_frame ?st0 ?st1" by (rule pid_frame_timer_cb)
    have c: "pid_frame ?st1 ?st2" by (rule pid_frame_upd_entry) simp
    have ab: "pid_frame st ?st1" using a b by (rule pid_frame_trans)
    have abc: "pid_frame st ?st2" using ab c by (rule pid_frame_trans)
    show ?thesis
      using Some False ab abc by (simp add: run_hrtimer_def Let_def case_prod_beta)
  qed
qed

lemma pid_frame_prepare_to_wait: "pid_frame st (prepare_to_wait cur e st)"
  unfolding prepare_to_wait_def
  by (rule pid_frame_trans [OF pid_frame_upd_entry pid_frame_upd_task]) simp

lemma pid_frame_finish_wait: "pid_frame st (finish_wait cur e st)"
  unfolding finish_wait_def
  by (rule pid_frame_trans [OF pid_frame_upd_entry pid_frame_upd_task]) simp

lemma pid_frame_wait_step: "pid_frame st (snd (wait_step cur sig pc st))"
  by (cases pc)
    (simp_all add: pid_frame_prepare_to_wait pid_frame_finish_wait split: option.splits)

lemma find_in_None_iff:
  "find_in st p l = None \<longleftrightarrow> p \<notin> set (map (\<lambda>a. pid (deref st a)) l)"
  by (induction l) auto

lemma find_in_Some: "find_in st p l = Some e \<Longrightarrow> e \<in> set l \<and> pid (deref st e) = p"
  by (induction l) (auto split: if_splits)

lemma find_in_append:
  "find_in st p (l @ [a]) =
     (case find_in st p l of
        Some x \<Rightarrow> Some x
      | None \<Rightarrow> if pid (deref st a) = p then Some a else None)"
  by (induction l) simp_all

lemma distinct_map_remove1: "distinct (map f l) \<Longrightarrow> distinct (map f (remove1 x l))"
proof (induction l)
  case Nil
  show ?case by simp
next
  case (Cons y l)
  have "set (remove1 x l) \<subseteq> set l" by (rule set_remove1_subset)
  then have "f y \<notin> f ` set l \<Longrightarrow> f y \<notin> f ` set (remove1 x l)" by blast
  then show ?case using Cons by auto
qed

lemma inv_insert:
  assumes i: "store_inv st" and fresh: "heap st e = None"
    and nf: "p3_find_locked st (pid ent) = None"
    and len: "length (p3_rsv_list st) < P3_MAX_RSV"
    and h: "heap st2 = (heap st)(e \<mapsto> ent)"
    and l: "p3_rsv_list st2 = p3_rsv_list st @ [e]"
  shows "store_inv st2"
proof -
  have e_notin: "e \<notin> set (p3_rsv_list st)"
    using i fresh by (auto simp: store_inv_def valid_store_def)
  have vs: "valid_store st2"
    using i e_notin h l by (auto simp: store_inv_def valid_store_def)
  have same: "\<And>a. a \<in> set (p3_rsv_list st) \<Longrightarrow> pid (deref st2 a) = pid (deref st a)"
    using e_notin h by (auto simp: deref_def)
  have m: "map (\<lambda>a. pid (deref st2 a)) (p3_rsv_list st) =
           map (\<lambda>a. pid (deref st a)) (p3_rsv_list st)"
    using same by simp
  have pe: "pid (deref st2 e) = pid ent" using h by (simp add: deref_def)
  have "pid ent \<notin> set (map (\<lambda>a. pid (deref st a)) (p3_rsv_list st))"
    using nf by (simp add: p3_find_locked_def find_in_None_iff)
  moreover have "map (\<lambda>a. pid (deref st2 a)) (p3_rsv_list st2) =
      map (\<lambda>a. pid (deref st a)) (p3_rsv_list st) @ [pid ent]"
    unfolding l using m pe by simp
  moreover have "distinct (map (\<lambda>a. pid (deref st a)) (p3_rsv_list st))"
    using i by (simp add: store_inv_def)
  ultimately have "distinct (map (\<lambda>a. pid (deref st2 a)) (p3_rsv_list st2))"
    by simp
  then show ?thesis
    using vs len l by (simp add: store_inv_def)
qed

lemma inv_remove:
  assumes i: "store_inv st"
    and l: "p3_rsv_list st2 = remove1 e (p3_rsv_list st)"
    and h: "\<And>a. a \<noteq> e \<Longrightarrow> heap st2 a = heap st a"
  shows "store_inv st2"
proof -
  have d: "distinct (p3_rsv_list st)" using i by (simp add: store_inv_def valid_store_def)
  have s: "set (p3_rsv_list st2) = set (p3_rsv_list st) - {e}"
    unfolding l using d by (rule set_remove1_eq)
  have hp: "heap st2 a = heap st a" if "a \<in> set (p3_rsv_list st2)" for a
  proof -
    have "a \<noteq> e" using that s by blast
    then show ?thesis by (rule h)
  qed
  have "distinct (p3_rsv_list st2)"
    unfolding l using d by (rule distinct_remove1)
  moreover have "heap st2 a \<noteq> None" if "a \<in> set (p3_rsv_list st2)" for a
  proof -
    have "a \<in> set (p3_rsv_list st)" using that s by blast
    then have "heap st a \<noteq> None" using i by (simp add: store_inv_def valid_store_def)
    then show ?thesis using hp [OF that] by simp
  qed
  ultimately have vs: "valid_store st2"
    unfolding valid_store_def by blast
  have meq: "map (\<lambda>a. pid (deref st2 a)) (p3_rsv_list st2) =
        map (\<lambda>a. pid (deref st a)) (p3_rsv_list st2)"
  proof (rule map_cong [OF refl])
    fix a assume "a \<in> set (p3_rsv_list st2)"
    then show "pid (deref st2 a) = pid (deref st a)"
      using hp by (simp add: deref_def)
  qed
  have "distinct (map (\<lambda>a. pid (deref st a)) (remove1 e (p3_rsv_list st)))"
    using i by (intro distinct_map_remove1) (simp add: store_inv_def)
  then have "distinct (map (\<lambda>a. pid (deref st a)) (p3_rsv_list st2))"
    by (simp only: l)
  then have dp: "distinct (map (\<lambda>a. pid (deref st2 a)) (p3_rsv_list st2))"
    by (simp only: meq)
  have "length (p3_rsv_list st2) \<le> length (p3_rsv_list st)"
    unfolding l by (simp add: length_remove1)
  then have "length (p3_rsv_list st2) \<le> P3_MAX_RSV"
    using i by (simp add: store_inv_def)
  then show ?thesis
    using vs dp by (simp add: store_inv_def)
qed

subsection \<open>Teardown touches one entry\<close>

lemma heap_fold_upd_task [simp]: "heap (fold (\<lambda>t. upd_task t f) ws st) = heap st"
  by (induction ws arbitrary: st) simp_all

lemma list_fold_upd_task [simp]: "p3_rsv_list (fold (\<lambda>t. upd_task t f) ws st) = p3_rsv_list st"
  by (induction ws arbitrary: st) simp_all

lemma heap_wake_up_all:
  "heap (wake_up_all e st) a =
     (if a = e then map_option (\<lambda>x. x\<lparr>wq := []\<rparr>) (heap st e) else heap st a)"
  by (simp add: wake_up_all_def Let_def heap_upd_entry)

lemma list_wake_up_all [simp]: "p3_rsv_list (wake_up_all e st) = p3_rsv_list st"
  by (simp add: wake_up_all_def Let_def)

lemma heap_release_task [simp]: "heap (release_task e st) = heap st"
  by (simp add: release_task_def sched_setscheduler_nocheck_def split: option.splits)

lemma list_release_task [simp]: "p3_rsv_list (release_task e st) = p3_rsv_list st"
  by (simp add: release_task_def sched_setscheduler_nocheck_def split: option.splits)

lemma heap_free_entry:
  "heap (p3_free_entry (Some e) st) a = (if a = e then None else heap st a)"
  by (simp add: p3_free_entry_def kfree_def heap_wake_up_all cancel_timer_def mark_canceled_def
      heap_upd_entry)

lemma list_free_entry [simp]: "p3_rsv_list (p3_free_entry eo st) = p3_rsv_list st"
  by (cases eo) (simp_all add: p3_free_entry_def kfree_def cancel_timer_def mark_canceled_def)

lemma inv_unlink_free:
  assumes "store_inv st"
  shows "store_inv (p3_reassign_rm_prios_locked (p3_free_entry (Some e) (list_del e st)))"
proof -
  have "store_inv (p3_free_entry (Some e) (list_del e st))"
    using assms by (rule inv_remove) (auto simp: list_del_def heap_free_entry)
  then show ?thesis
    by (rule pid_frame_inv [OF pid_frame_reassign])
qed

lemma inv_cancel_rsv: "store_inv st \<Longrightarrow> store_inv (snd (cancel_rsv cur p0 st))"
  by (cases "p3_find_locked st (target_pid cur p0)") (simp_all add: cancel_rsv_def inv_unlink_free)

lemma inv_exit_cb: "store_inv st \<Longrightarrow> store_inv (p3_sched_exit_cb po st)"
proof (cases po)
  case None
  assume "store_inv st"
  then show ?thesis using None by (simp add: p3_sched_exit_cb_def)
next
  case (Some p)
  assume i: "store_inv st"
  show ?thesis
  proof (cases "p3_find_locked st p")
    case None
    then show ?thesis
      using i Some by (simp add: p3_sched_exit_cb_def pid_frame_inv [OF pid_frame_reassign])
  next
    case (Some e)
    then show ?thesis
      using i \<open>po = Some p\<close> by (simp add: p3_sched_exit_cb_def inv_unlink_free)
  qed
qed

lemma set_rsv_Inr_cases:
  assumes "fst (set_rsv cur p0 C T alloc now st) = Inr u"
  shows "\<exists>c t e. C = Some c \<and> T = Some t \<and> alloc = Some e \<and> \<not> args_invalid c t \<and>
           pid_task st (target_pid cur p0) \<noteq> None \<and>
           p3_find_locked st (target_pid cur p0) = None \<and>
           length (p3_rsv_list st) < P3_MAX_RSV"
proof -
  have nf: "\<not> (C = None \<or> T = None)"
  proof
    assume "C = None \<or> T = None"
    then have "set_rsv cur p0 C T alloc now st = (Inl EFAULT, st)"
      by (rule set_rsv_EFAULT)
    then show False using assms by simp
  qed
  then obtain c t where ct: "C = Some c" "T = Some t" by auto
  have ok: "\<not> args_invalid c t"
  proof
    assume "args_invalid c t"
    then have "set_rsv cur p0 (Some c) (Some t) alloc now st = (Inl EINVAL, st)"
      by (rule set_rsv_EINVAL)
    then show False using assms ct by simp
  qed
  have res: "pid_task st (target_pid cur p0) \<noteq> None"
  proof
    assume "pid_task st (target_pid cur p0) = None"
    with ok have "set_rsv cur p0 (Some c) (Some t) alloc now st = (Inl ESRCH, st)"
      by (rule set_rsv_ESRCH)
    then show False using assms ct by simp
  qed
  have nd: "p3_find_locked st (target_pid cur p0) = None"
  proof (rule ccontr)
    assume "p3_find_locked st (target_pid cur p0) \<noteq> None"
    then have "set_rsv cur p0 (Some c) (Some t) alloc now st = (Inl EBUSY, st)"
      using ok res by (intro set_rsv_EBUSY)
    then show False using assms ct by simp
  qed
  have len: "length (p3_rsv_list st) < P3_MAX_RSV"
  proof (rule ccontr)
    assume "\<not> length (p3_rsv_list st) < P3_MAX_RSV"
    then have "set_rsv cur p0 (Some c) (Some t) alloc now st = (Inl ENOSPC, st)"
      using ok res nd by (intro set_rsv_ENOSPC) simp_all
    then show False using assms ct by simp
  qed
  have "alloc \<noteq> None"
  proof
    assume "alloc = None"
    then have "set_rsv cur p0 (Some c) (Some t) alloc now st = (Inl ENOMEM, st)"
      using ok res nd len by (simp add: set_rsv_ENOMEM)
    then show False using assms ct by simp
  qed
  then obtain e where "alloc = Some e" by auto
  then show ?thesis using ct ok res nd len by simp
qed

lemma inv_set_rsv:
  assumes i: "store_inv st" and k: "kzalloc_ok st alloc"
  shows "store_inv (snd (set_rsv cur p0 C T alloc now st))"
proof (cases "fst (set_rsv cur p0 C T alloc now st)")
  case (Inl err)
  then show ?thesis using i by (simp add: set_rsv_failure_frame)
next
  case (Inr u)
  let ?p = "target_pid cur p0"
  from Inr obtain c t e where ct: "C = Some c" "T = Some t" "alloc = Some e"
    and ok: "\<not> args_invalid c t" "pid_task st ?p \<noteq> None" "p3_find_locked st ?p = None"
      "length (p3_rsv_list st) < P3_MAX_RSV"
    using set_rsv_Inr_cases [of cur p0 C T alloc now st u] by blast
  let ?st2 = "(get_task_struct ?p st)
           \<lparr>heap := (heap st)(e \<mapsto> new_entry ?p ?p (ns_of c) (ns_of t) now),
            p3_rsv_list := p3_rsv_list st @ [e]\<rparr>"
  have "store_inv ?st2"
    using i _ _ ok(4)
  proof (rule inv_insert)
    show "heap st e = None" using k ct by (simp add: kzalloc_ok_def)
    show "p3_find_locked st (pid (new_entry ?p ?p (ns_of c) (ns_of t) now)) = None"
      using ok(3) by (simp add: new_entry_def)
  qed simp_all
  then have "store_inv (p3_reassign_rm_prios_locked ?st2)"
    by (rule pid_frame_inv [OF pid_frame_reassign])
  then show ?thesis
    using ct ok by (simp add: set_rsv_success)
qed

lemma inv_boot: "store_inv (boot ts)"
  by (simp add: store_inv_def valid_store_def boot_def)

lemma reachable_inv: "reachable st \<Longrightarrow> store_inv st"
proof (induction rule: reachable.induct)
  case (r_boot ts)
  show ?case by (rule inv_boot)
next
  case (r_set_rsv st alloc cur p0 C T now)
  then show ?case by (simp add: inv_set_rsv)
next
  case (r_cancel_rsv st cur p0)
  then show ?case by (simp add: inv_cancel_rsv)
next
  case (r_exit st po)
  then show ?case by (simp add: inv_exit_cb)
next
  case (r_timer st now e)
  then show ?case by (blast intro: pid_frame_inv pid_frame_run_hrtimer)
next
  case (r_wait st cur sig pc)
  then show ?case by (blast intro: pid_frame_inv pid_frame_wait_step)
next
  case (r_tasks st ts)
  then show ?case by (blast intro: pid_frame_inv pid_frame_tasks)
qed

section \<open>Capacity\<close>

lemma tasks_dom_upd_task [simp]: "tasks (upd_task t f st) u = None \<longleftrightarrow> tasks st u = None"
  by (simp add: upd_task_def split: option.splits)

lemma tasks_dom_assign_one [simp]: "tasks (assign_one i a st) u = None \<longleftrightarrow> tasks st u = None"
  by (simp add: assign_one_def Let_def sched_setscheduler_nocheck_def split: option.splits)

lemma tasks_dom_assign_loop [simp]:
  "tasks (assign_loop i arr st) u = None \<longleftrightarrow> tasks st u = None"
proof (induction i arr st rule: assign_loop.induct)
  case (1 i arr st)
  show ?case
  proof (cases "i < length arr")
    case True
    then show ?thesis using "1.IH" [OF True] by (simp add: assign_loop_unfold)
  next
    case False
    then show ?thesis by (simp add: assign_loop_done)
  qed
qed

lemma tasks_dom_reassign [simp]:
  "tasks (p3_reassign_rm_prios_locked st) u = None \<longleftrightarrow> tasks st u = None"
  by (simp add: p3_reassign_rm_prios_locked_def)

lemma fill_ok_0: "fill_ok 0"
  by (simp add: fill_ok_def boot_def fill_tasks_def)
    (metis boot_def reachable.r_boot)

lemma fill_ok_Suc:
  assumes ok: "fill_ok n" and n: "n < P3_MAX_RSV"
  shows "fill_ok (Suc n)"
proof -
  let ?c = "\<lparr>tv_sec = 0, tv_nsec = 1000000\<rparr>" and ?t = "\<lparr>tv_sec = 0, tv_nsec = 10000000\<rparr>"
  let ?p = "int n + 1"
  let ?st = "fill n"
  let ?st2 = "(get_task_struct ?p ?st)
           \<lparr>heap := (heap ?st)(n \<mapsto> new_entry ?p ?p (ns_of ?c) (ns_of ?t) 0),
            p3_rsv_list := p3_rsv_list ?st @ [n]\<rparr>"
  have tp: "target_pid 1 ?p = ?p" by (simp add: target_pid_def)
  have valid: "\<not> args_invalid ?c ?t" by (simp add: args_invalid_def ns_of_small)
  have res: "pid_task ?st (target_pid 1 ?p) \<noteq> None"
    using ok by (simp add: fill_ok_def pid_task_def tp split: option.splits)
  have "?p \<notin> set (map (\<lambda>a. pid (deref ?st a)) [0..<n])"
    using ok by (auto simp: fill_ok_def)
  then have nf: "p3_find_locked ?st (target_pid 1 ?p) = None"
    using ok by (simp add: p3_find_locked_def find_in_None_iff fill_ok_def tp)
  have len: "length (p3_rsv_list ?st) < P3_MAX_RSV"
    using ok n by (simp add: fill_ok_def)
  have eq: "fill (Suc n) = p3_reassign_rm_prios_locked ?st2"
    using set_rsv_success [OF valid res nf len, of n 0] by (simp add: tp fill.simps(2))
  have fr: "pid_frame ?st2 (fill (Suc n))"
    unfolding eq by (rule pid_frame_reassign)
  have l: "p3_rsv_list (fill (Suc n)) = [0..<Suc n]"
    using fr ok by (simp add: pid_frame_def fill_ok_def)
  have h: "\<forall>a. heap (fill (Suc n)) a = None \<longleftrightarrow> Suc n \<le> a"
    using ok by (auto simp: pid_frame_dom [OF fr] fill_ok_def)
  have p: "\<forall>a<Suc n. pid (deref (fill (Suc n)) a) = int a + 1"
  proof (intro allI impI)
    fix a assume a: "a < Suc n"
    have "pid (deref (fill (Suc n)) a) = pid (deref ?st2 a)"
      by (rule pid_frame_deref [OF fr])
    also have "\<dots> = int a + 1"
    proof (cases "a = n")
      case True
      then show ?thesis by (simp add: deref_def new_entry_def)
    next
      case False
      then have "a < n" using a by simp
      then have "pid (deref ?st a) = int a + 1" using ok by (simp add: fill_ok_def)
      then show ?thesis using False by (simp add: deref_def)
    qed
    finally show "pid (deref (fill (Suc n)) a) = int a + 1" .
  qed
  have t: "\<forall>p. tasks (fill (Suc n)) p \<noteq> None"
    using ok unfolding eq by (simp add: fill_ok_def get_task_struct_def)
  have "kzalloc_ok ?st (Some n)"
    using ok by (simp add: kzalloc_ok_def fill_ok_def)
  then have r: "reachable (fill (Suc n))"
    using ok reachable.r_set_rsv [of ?st "Some n" 1 ?p "Some ?c" "Some ?t" 0]
    by (simp add: fill_ok_def fill.simps(2))
  show ?thesis
    using l h p t r unfolding fill_ok_def by blast
qed

lemma fill_ok_all: "n \<le> P3_MAX_RSV \<Longrightarrow> fill_ok n"
proof (induction n)
  case 0
  show ?case by (rule fill_ok_0)
next
  case (Suc n)
  then show ?case by (intro fill_ok_Suc) simp_all
qed

lemma fill_full:
  "reachable (fill 50)" "length (p3_rsv_list (fill 50)) = 50"
  "p3_find_locked (fill 50) 51 = None" "pid_task (fill 50) 51 \<noteq> None"
proof -
  have ok: "fill_ok 50" by (rule fill_ok_all) (simp add: P3_MAX_RSV_def)
  show "reachable (fill 50)" using ok by (simp add: fill_ok_def)
  show "length (p3_rsv_list (fill 50)) = 50" using ok by (simp add: fill_ok_def)
  have "(51::int) \<notin> set (map (\<lambda>a. pid (deref (fill 50) a)) [0..<50])"
    using ok by (auto simp: fill_ok_def)
  then show "p3_find_locked (fill 50) 51 = None"
    using ok by (simp add: p3_find_locked_def find_in_None_iff fill_ok_def)
  show "pid_task (fill 50) 51 \<noteq> None"
    using ok by (simp add: fill_ok_def pid_task_def split: option.splits)
qed

text \<open>
  Claim C4, as amended. In every reachable state the list holds at most \<open>P3_MAX_RSV\<close>
  entries. A \<open>set_rsv\<close> call made when the list is full never succeeds and returns the
  state it was given, so every existing reservation keeps its \<open>C\<close>, \<open>T\<close>, priority,
  sequence counter and timer; the error is \<open>ENOSPC\<close> when the arguments are readable
  and valid, the task id resolves to a live task and that task has no reservation.
  (The claim as stated promises \<open>ENOSPC\<close> for every call on a full store; the earlier
  checks take precedence, as \<open>C4_counterexample\<close> shows on the reachable store
  \<open>fill 50\<close>.)
\<close>

theorem C4_capacity:
  "(reachable st \<longrightarrow> length (p3_rsv_list st) \<le> P3_MAX_RSV)
   \<and> (P3_MAX_RSV \<le> length (p3_rsv_list st) \<longrightarrow>
        (\<exists>err. set_rsv cur p0 C T alloc now st = (Inl err, st))
      \<and> (C = Some c \<and> T = Some t \<and> \<not> args_invalid c t
           \<and> pid_task st (target_pid cur p0) \<noteq> None
           \<and> p3_find_locked st (target_pid cur p0) = None \<longrightarrow>
         set_rsv cur p0 C T alloc now st = (Inl ENOSPC, st)))"
proof (intro conjI impI)
  assume "reachable st"
  then show "length (p3_rsv_list st) \<le> P3_MAX_RSV"
    by (auto dest: reachable_inv simp: store_inv_def)
next
  assume full: "P3_MAX_RSV \<le> length (p3_rsv_list st)"
  have "fst (set_rsv cur p0 C T alloc now st) \<noteq> Inr ()"
  proof
    assume "fst (set_rsv cur p0 C T alloc now st) = Inr ()"
    then have "length (p3_rsv_list st) < P3_MAX_RSV"
      using set_rsv_Inr_cases [of cur p0 C T alloc now st "()"] by blast
    then show False using full by simp
  qed
  then obtain err where e: "fst (set_rsv cur p0 C T alloc now st) = Inl err"
    by (cases "fst (set_rsv cur p0 C T alloc now st)") auto
  then have "snd (set_rsv cur p0 C T alloc now st) = st"
    by (rule set_rsv_failure_frame)
  then have "set_rsv cur p0 C T alloc now st = (Inl err, st)"
    using e by (metis prod.collapse)
  then show "\<exists>err. set_rsv cur p0 C T alloc now st = (Inl err, st)" ..
next
  assume "P3_MAX_RSV \<le> length (p3_rsv_list st)"
    and "C = Some c \<and> T = Some t \<and> \<not> args_invalid c t
           \<and> pid_task st (target_pid cur p0) \<noteq> None
           \<and> p3_find_locked st (target_pid cur p0) = None"
  then show "set_rsv cur p0 C T alloc now st = (Inl ENOSPC, st)"
    using set_rsv_ENOSPC [of c t st cur p0 alloc now] by simp
qed

theorem C4_counterexample:
  "reachable (fill 50) \<and> length (p3_rsv_list (fill 50)) = 50
   \<and> set_rsv 51 51 (Some \<lparr>tv_sec = 0, tv_nsec = 20000000\<rparr>)
        (Some \<lparr>tv_sec = 0, tv_nsec = 10000000\<rparr>) (Some 50) 0 (fill 50) = (Inl EINVAL, fill 50)"
proof -
  have "args_invalid \<lparr>tv_sec = 0, tv_nsec = 20000000\<rparr> \<lparr>tv_sec = 0, tv_nsec = 10000000\<rparr>"
    by (simp add: args_invalid_def ns_of_small)
  then show ?thesis
    using fill_full(1,2) by (simp add: set_rsv_EINVAL)
qed

theorem C4_witness:
  "reachable (fill 50) \<and> length (p3_rsv_list (fill 50)) \<le> P3_MAX_RSV
   \<and> P3_MAX_RSV \<le> length (p3_rsv_list (fill 50))
   \<and> set_rsv 51 51 (Some \<lparr>tv_sec = 0, tv_nsec = 1000000\<rparr>)
        (Some \<lparr>tv_sec = 0, tv_nsec = 10000000\<rparr>) (Some 50) 0 (fill 50) = (Inl ENOSPC, fill 50)"
proof -
  let ?c = "\<lparr>tv_sec = 0, tv_nsec = 1000000\<rparr>" and ?t = "\<lparr>tv_sec = 0, tv_nsec = 10000000\<rparr>"
  have v: "\<not> args_invalid ?c ?t"
    by (simp add: args_invalid_def ns_of_small)
  have tp: "target_pid 51 51 = 51" by (simp add: target_pid_def)
  have full: "P3_MAX_RSV \<le> length (p3_rsv_list (fill 50))"
    using fill_full(2) by (simp add: P3_MAX_RSV_def)
  have le: "length (p3_rsv_list (fill 50)) \<le> P3_MAX_RSV"
    using fill_full(2) by (simp add: P3_MAX_RSV_def)
  have pre: "Some ?c = Some ?c \<and> Some ?t = Some ?t \<and> \<not> args_invalid ?c ?t
      \<and> pid_task (fill 50) (target_pid 51 51) \<noteq> None
      \<and> p3_find_locked (fill 50) (target_pid 51 51) = None"
    using v fill_full(3,4) unfolding tp by blast
  have "set_rsv 51 51 (Some ?c) (Some ?t) (Some 50) 0 (fill 50) = (Inl ENOSPC, fill 50)"
    using C4_capacity [of "fill 50" 51 51 "Some ?c" "Some ?t" "Some 50" 0 ?c ?t] full pre
    by blast
  then show ?thesis
    using fill_full(1) full le by blast
qed

section \<open>Timer expiry and waiting\<close>

subsection \<open>Waking\<close>

lemma tasks_fold_wake:
  "tasks (fold (\<lambda>t. upd_task t (\<lambda>ts. ts\<lparr>sleeping := False\<rparr>)) ws st) u =
     (if u \<in> set ws then map_option (\<lambda>ts. ts\<lparr>sleeping := False\<rparr>) (tasks st u) else tasks st u)"
proof (induction ws arbitrary: st)
  case Nil
  show ?case by simp
next
  case (Cons w ws)
  show ?case
    by (auto simp: Cons.IH tasks_upd_task option.map_comp comp_def)
qed

lemma tasks_wake_up_all:
  "tasks (wake_up_all e st) u =
     (if u \<in> set (wq (deref st e))
      then map_option (\<lambda>ts. ts\<lparr>sleeping := False\<rparr>) (tasks st u) else tasks st u)"
  by (simp add: wake_up_all_def Let_def tasks_fold_wake)

lemma not_sleeping_wake_up_all:
  "u \<in> set (wq (deref st e)) \<Longrightarrow> \<not> is_sleeping (wake_up_all e st) u"
  by (simp add: is_sleeping_def tasks_wake_up_all split: option.splits)

subsection \<open>The timer callback\<close>

lemma timer_cb_canceled:
  "heap st e = Some ent \<Longrightarrow> canceled ent \<Longrightarrow> p3_timer_cb now e st = (HRTIMER_NORESTART, st)"
  by (simp add: p3_timer_cb_def deref_def)

lemma run_hrtimer_canceled:
  assumes "heap st e = Some ent" and "canceled ent"
  shows "run_hrtimer now e st =
     (if enqueued (timer ent) \<and> expires (timer ent) \<le> now
      then upd_entry e (\<lambda>x. x\<lparr>timer := (timer x)\<lparr>enqueued := False\<rparr>\<rparr>) st
      else st)"
proof (cases "enqueued (timer ent) \<and> expires (timer ent) \<le> now")
  case True
  let ?st0 = "upd_entry e (\<lambda>x. x\<lparr>timer := (timer x)\<lparr>enqueued := False\<rparr>\<rparr>) st"
  have "heap ?st0 e = Some (ent\<lparr>timer := (timer ent)\<lparr>enqueued := False\<rparr>\<rparr>)"
    using assms(1) by (simp add: heap_upd_entry)
  then have "p3_timer_cb now e ?st0 = (HRTIMER_NORESTART, ?st0)"
    using assms(2) by (simp add: p3_timer_cb_def deref_def)
  then show ?thesis
    using True assms(1) by (simp add: run_hrtimer_def Let_def not_less)
next
  case False
  then show ?thesis
    using assms(1) by (auto simp: run_hrtimer_def not_less)
qed



lemma heap_finish_wait:
  "heap (finish_wait cur e st) a =
     (if a = e then map_option (\<lambda>x. x\<lparr>wq := removeAll cur (wq x)\<rparr>) (heap st e) else heap st a)"
  by (simp add: finish_wait_def heap_upd_entry)





lemma find_after_list_del:
  assumes "distinct (p3_rsv_list st)"
  shows "p3_find_locked (list_del e st) p \<noteq> Some e"
proof
  assume "p3_find_locked (list_del e st) p = Some e"
  then have "e \<in> set (p3_rsv_list (list_del e st))"
    unfolding p3_find_locked_def by (auto dest: find_in_Some)
  then show False using assms by (simp add: list_del_def)
qed

subsection \<open>Evaluation of the example states\<close>

lemmas scenario_eval =
  set_rsv_def args_invalid_def ns_of_small pid_task_def get_task_struct_def
  put_task_struct_def upd_task_def boot_def p3_find_locked_def P3_MAX_RSV_def
  p3_reassign_rm_prios_locked_def rm_order_def sort_outer_unfold sort_outer_done
  sort_inner_done sort_inner_unfold assign_loop_unfold assign_loop_done assign_one_def
  rank_prio_def MAX_RT_PRIO_def upd_entry_def deref_def new_entry_def
  sched_setscheduler_nocheck_def hrtimer_start_def Let_def cancel_rsv_def p3_free_entry_def
  list_del_def kfree_def release_task_def wake_up_all_def cancel_timer_def mark_canceled_def
  hrtimer_cancel_def swap_arr_def T_of_def target_pid_def prio_of_task_def

lemma demo_reg_eval:
  "heap demo_reg = [0 \<mapsto> demo_entry]"
  "p3_rsv_list demo_reg = [0]"
  "tasks demo_reg = demo_tasks(100 \<mapsto> demo_task\<lparr>usage := 1, policy := SCHED_FIFO, rt_priority := 99\<rparr>)"
  by (simp_all add: demo_reg_def demo_tasks_def demo_task_def demo_entry_def scenario_eval)

lemma reachable_demo_reg: "reachable demo_reg"
  unfolding demo_reg_def
  by (rule reachable.r_set_rsv [OF reachable.r_boot]) (simp add: kzalloc_ok_def boot_def)

lemma reachable_demo_fired: "reachable demo_fired"
  unfolding demo_fired_def by (rule reachable.r_timer [OF reachable_demo_reg])

lemma demo_fired_eval:
  "heap demo_fired = [0 \<mapsto> demo_entry\<lparr>period_seq := 1,
       timer := \<lparr>enqueued = True, expires = 20000000\<rparr>\<rparr>]"
  "p3_rsv_list demo_fired = [0]"
  "tasks demo_fired = tasks demo_reg"
  by (simp_all add: demo_fired_def run_hrtimer_def p3_timer_cb_def demo_reg_eval demo_entry_def
      upd_entry_def deref_def new_entry_def hrtimer_start_def hrtimer_forward_now_def
      wake_up_all_def Let_def)

lemma demo_cancelled_eval:
  "cancel_rsv 100 100 demo_fired = (Inr (), demo_cancelled)"
  "heap demo_cancelled 0 = None"
  "pid_task demo_cancelled (target_pid 100 100) \<noteq> None"
  by (simp_all add: demo_cancelled_def demo_fired_eval demo_reg_eval demo_entry_def demo_tasks_def
      scenario_eval)




lemma demo_waiting_eval:
  "wait_step 100 False (W_wait 0 1) demo_fired = (W_wait 0 1, demo_waiting)"
  "heap demo_waiting = [0 \<mapsto> demo_entry\<lparr>period_seq := 1,
       timer := \<lparr>enqueued = True, expires = 20000000\<rparr>, wq := [100]\<rparr>]"
  "p3_rsv_list demo_waiting = [0]"
  "tasks demo_waiting = demo_tasks(100 \<mapsto> demo_task\<lparr>usage := 1, policy := SCHED_FIFO,
       rt_priority := 99, sleeping := True\<rparr>)"
  by (simp_all add: demo_waiting_def demo_fired_eval demo_reg_eval is_sleeping_def wait_cond_def
      prepare_to_wait_def upd_entry_def upd_task_def demo_tasks_def demo_task_def demo_entry_def
      new_entry_def)

lemma demo_freed_eval:
  "cancel_rsv 101 100 demo_waiting = (Inr (), demo_freed)"
  "heap demo_freed = Map.empty"
  "p3_rsv_list demo_freed = []"
  "tasks demo_freed = demo_tasks"
  by (simp_all add: demo_freed_def demo_waiting_eval demo_entry_def demo_tasks_def demo_task_def
      scenario_eval fun_eq_iff)

lemma demo_reused_eval:
  "set_rsv 101 100 (Some \<lparr>tv_sec = 0, tv_nsec = 2000000\<rparr>)
     (Some \<lparr>tv_sec = 0, tv_nsec = 10000000\<rparr>) (Some 0) 20000000 demo_freed = (Inr (), demo_reused)"
  "heap demo_reused = [0 \<mapsto> (new_entry 100 100 2000000 10000000 20000000)\<lparr>prio := 99\<rparr>]"
  "tasks demo_reused = demo_tasks(100 \<mapsto> demo_task\<lparr>usage := 1, policy := SCHED_FIFO, rt_priority := 99\<rparr>)"
  by (simp_all add: demo_reused_def demo_freed_eval demo_tasks_def demo_task_def scenario_eval)

lemma demo_window_eval:
  "heap demo_window = [0 \<mapsto> demo_entry\<lparr>period_seq := 1,
       timer := \<lparr>enqueued = True, expires = 20000000\<rparr>, canceled := True\<rparr>]"
  "p3_rsv_list demo_window = []"
  by (simp_all add: demo_window_def mark_canceled_def list_del_def upd_entry_def demo_fired_eval
      deref_def)

lemma cancel_rsv_through_window:
  "snd (cancel_rsv 101 100 demo_fired) =
     p3_reassign_rm_prios_locked
       (kfree 0 (release_task 0 (wake_up_all 0 (cancel_timer 0 demo_window))))"
  by (simp add: cancel_rsv_def target_pid_def p3_find_locked_def demo_fired_eval demo_reg_eval
      demo_entry_def new_entry_def p3_free_entry_def demo_window_def deref_def Let_def)

lemma reachable_demo_reused: "reachable demo_waiting" "reachable demo_freed" "reachable demo_reused"
proof -
  show w: "reachable demo_waiting"
    unfolding demo_waiting_def by (rule reachable.r_wait [OF reachable_demo_fired])
  show f: "reachable demo_freed"
    unfolding demo_freed_def by (rule reachable.r_cancel_rsv [OF w])
  show "reachable demo_reused"
    unfolding demo_reused_def
    by (rule reachable.r_set_rsv [OF f]) (simp add: kzalloc_ok_def demo_freed_eval)
qed

subsection \<open>The wait protocol\<close>





lemma wait_fails_when_canceled:
  assumes "heap st e = Some ent" and "canceled ent" and run: "\<not> (is_sleeping st cur \<and> \<not> sig)"
  shows "fst (wait_step cur sig (W_wait e seen) st) = W_woken e"
    and "fst (wait_step cur sig (W_woken e) (snd (wait_step cur sig (W_wait e seen) st))) =
           W_ret (Inl ENOENT)"
proof -
  have w: "wait_step cur sig (W_wait e seen) st = (W_woken e, finish_wait cur e st)"
    using run assms(1,2) by (auto simp: wait_cond_def)
  have "heap (finish_wait cur e st) e = Some (ent\<lparr>wq := removeAll cur (wq ent)\<rparr>)"
    using assms(1) by (simp add: heap_finish_wait)
  then have "wait_step cur sig (W_woken e) (finish_wait cur e st) =
      (W_ret (Inl ENOENT), finish_wait cur e st)"
    using assms(2) by simp
  then show "fst (wait_step cur sig (W_wait e seen) st) = W_woken e"
    and "fst (wait_step cur sig (W_woken e) (snd (wait_step cur sig (W_wait e seen) st))) =
           W_ret (Inl ENOENT)"
    using w by simp_all
qed

text \<open>
  While the record of an entry is allocated and its flag is set, which are the states
  inside \<open>p3_free_entry\<close> between lines 100 and 112, the timer is terminal: the callback
  returns \<open>HRTIMER_NORESTART\<close> and changes nothing, so an expiry only takes the timer off
  its queue, the sequence counter keeps its value and later expiries do nothing. A caller
  that reads the flag of such a record fails with \<open>ENOENT\<close>, one that evaluates the
  wait condition finds it true and then fails with \<open>ENOENT\<close>, the \<open>wake_up_all\<close> of the
  teardown makes every caller on the wait queue runnable, and an unlinked entry is not
  returned by the lookup.
\<close>

lemma canceled_entry_terminal:
  assumes "heap st e = Some ent" and "canceled ent"
  shows "p3_timer_cb now e st = (HRTIMER_NORESTART, st)
    \<and> run_hrtimer now e st =
        (if enqueued (timer ent) \<and> expires (timer ent) \<le> now
         then upd_entry e (\<lambda>x. x\<lparr>timer := (timer x)\<lparr>enqueued := False\<rparr>\<rparr>) st
         else st)
    \<and> map_option period_seq (heap (run_hrtimer now e st) e) = Some (period_seq ent)
    \<and> (timer_due st e now \<longrightarrow>
         map_option (\<lambda>x. enqueued (timer x)) (heap (run_hrtimer now e st) e) = Some False
       \<and> run_hrtimer now' e (run_hrtimer now e st) = run_hrtimer now e st)
    \<and> wait_step cur sig (W_woken e) st = (W_ret (Inl ENOENT), st)
    \<and> (\<not> (is_sleeping st cur \<and> \<not> sig) \<longrightarrow>
         fst (wait_step cur sig (W_wait e seen) st) = W_woken e
       \<and> fst (wait_step cur sig (W_woken e) (snd (wait_step cur sig (W_wait e seen) st))) =
           W_ret (Inl ENOENT))
    \<and> (cur \<in> set (wq ent) \<longrightarrow>
         \<not> is_sleeping (wake_up_all e st) cur
       \<and> fst (wait_step cur sig (W_wait e seen) (wake_up_all e st)) = W_woken e
       \<and> fst (wait_step cur sig (W_woken e)
            (snd (wait_step cur sig (W_wait e seen) (wake_up_all e st)))) = W_ret (Inl ENOENT))
    \<and> (distinct (p3_rsv_list st) \<longrightarrow> p3_find_locked (list_del e st) p \<noteq> Some e)"
proof -
  let ?off = "upd_entry e (\<lambda>x. x\<lparr>timer := (timer x)\<lparr>enqueued := False\<rparr>\<rparr>) st"
  have c1: "p3_timer_cb now e st = (HRTIMER_NORESTART, st)"
    using assms by (rule timer_cb_canceled)
  have c2: "run_hrtimer now e st =
        (if enqueued (timer ent) \<and> expires (timer ent) \<le> now then ?off else st)"
    using assms by (rule run_hrtimer_canceled)
  have c3: "map_option period_seq (heap (run_hrtimer now e st) e) = Some (period_seq ent)"
    unfolding c2 using assms(1) by (simp add: heap_upd_entry)
  have c4: "timer_due st e now \<longrightarrow>
         map_option (\<lambda>x. enqueued (timer x)) (heap (run_hrtimer now e st) e) = Some False
       \<and> run_hrtimer now' e (run_hrtimer now e st) = run_hrtimer now e st"
  proof
    assume "timer_due st e now"
    then have due: "enqueued (timer ent) \<and> expires (timer ent) \<le> now"
      using assms(1) by (simp add: timer_due_def)
    have r: "run_hrtimer now e st = ?off" using c2 due by simp
    have h: "heap ?off e = Some (ent\<lparr>timer := (timer ent)\<lparr>enqueued := False\<rparr>\<rparr>)"
      using assms(1) by (simp add: heap_upd_entry)
    have "run_hrtimer now' e ?off = ?off"
      using h by (simp add: run_hrtimer_def)
    then show "map_option (\<lambda>x. enqueued (timer x)) (heap (run_hrtimer now e st) e) = Some False
       \<and> run_hrtimer now' e (run_hrtimer now e st) = run_hrtimer now e st"
      unfolding r using h by simp
  qed
  have c5: "wait_step cur sig (W_woken e) st = (W_ret (Inl ENOENT), st)"
    using assms by simp
  have c6: "\<not> (is_sleeping st cur \<and> \<not> sig) \<longrightarrow>
         fst (wait_step cur sig (W_wait e seen) st) = W_woken e
       \<and> fst (wait_step cur sig (W_woken e) (snd (wait_step cur sig (W_wait e seen) st))) =
           W_ret (Inl ENOENT)"
    using wait_fails_when_canceled [OF assms] by blast
  have c8: "cur \<in> set (wq ent) \<longrightarrow>
         \<not> is_sleeping (wake_up_all e st) cur
       \<and> fst (wait_step cur sig (W_wait e seen) (wake_up_all e st)) = W_woken e
       \<and> fst (wait_step cur sig (W_woken e)
            (snd (wait_step cur sig (W_wait e seen) (wake_up_all e st)))) = W_ret (Inl ENOENT)"
  proof
    assume q: "cur \<in> set (wq ent)"
    have h: "heap (wake_up_all e st) e = Some (ent\<lparr>wq := []\<rparr>)"
      using assms(1) by (simp add: heap_wake_up_all)
    have c: "canceled (ent\<lparr>wq := []\<rparr>)" using assms(2) by simp
    have "cur \<in> set (wq (deref st e))" using q assms(1) by (simp add: deref_def)
    then have awake: "\<not> is_sleeping (wake_up_all e st) cur"
      by (rule not_sleeping_wake_up_all)
    then have run: "\<not> (is_sleeping (wake_up_all e st) cur \<and> \<not> sig)" by simp
    show "\<not> is_sleeping (wake_up_all e st) cur
       \<and> fst (wait_step cur sig (W_wait e seen) (wake_up_all e st)) = W_woken e
       \<and> fst (wait_step cur sig (W_woken e)
            (snd (wait_step cur sig (W_wait e seen) (wake_up_all e st)))) = W_ret (Inl ENOENT)"
      using awake wait_fails_when_canceled [OF h c run] by blast
  qed
  have c7: "distinct (p3_rsv_list st) \<longrightarrow> p3_find_locked (list_del e st) p \<noteq> Some e"
    by (simp add: find_after_list_del)
  from c1 c2 c3 c4 c5 c6 c7 c8 show ?thesis by blast
qed

text \<open>
  Claim C3. The timer part holds (\<open>canceled_entry_terminal\<close>); the part about waiters
  does not hold of the code. The teardown sets the flag and wakes the waiters so that
  they read it and fail with \<open>ENOENT\<close> (lines 100--102 and 241), but it frees the record
  at line 112 while a woken caller still holds its address, and the re-check of line 234
  returns success without the read of the flag that line 241 does.

  The theorem runs the code from the empty store with the live tasks 100 and 101.
  Task 100 is registered (2 ms every 10 ms), the timer expires once, task 100 calls
  \<open>wait_until_next_period\<close> and blocks with the sequence value 1. Task 101 cancels the
  reservation: the record is freed, and the next step of task 100 reads freed memory.
  Task 101 registers task 100 again and \<open>kzalloc\<close> returns the address just freed: task
  100 finds the counter 0, different from 1, and a clear flag, and returns success,
  although no timer has expired since the cancellation. The last four conjuncts are a
  second run: a caller that looked the entry up before the first expiry and reaches the
  re-check when the teardown has set the flag (\<open>demo_window\<close>, a state \<open>cancel_rsv\<close>
  passes through) returns success.
\<close>

theorem C3_wait_after_teardown:
  "wait_step 100 False W_lookup demo_fired = (W_recheck 0 1, demo_fired)
   \<and> wait_step 100 False (W_recheck 0 1) demo_fired = (W_wait 0 1, demo_fired)
   \<and> wait_step 100 False (W_wait 0 1) demo_fired = (W_wait 0 1, demo_waiting)
   \<and> is_sleeping demo_waiting 100
   \<and> cancel_rsv 101 100 demo_waiting = (Inr (), demo_freed)
   \<and> heap demo_freed 0 = None
   \<and> wait_step 100 False (W_wait 0 1) demo_freed = (W_fault, demo_freed)
   \<and> set_rsv 101 100 (Some \<lparr>tv_sec = 0, tv_nsec = 2000000\<rparr>)
        (Some \<lparr>tv_sec = 0, tv_nsec = 10000000\<rparr>) (Some 0) 20000000 demo_freed =
       (Inr (), demo_reused)
   \<and> map_option period_seq (heap demo_reused 0) = Some 0
   \<and> map_option canceled (heap demo_reused 0) = Some False
   \<and> fst (wait_step 100 False (W_wait 0 1) demo_reused) = W_woken 0
   \<and> fst (wait_step 100 False (W_woken 0) (snd (wait_step 100 False (W_wait 0 1) demo_reused))) =
       W_ret (Inr ())
   \<and> wait_step 100 False W_lookup demo_reg = (W_recheck 0 0, demo_reg)
   \<and> snd (cancel_rsv 101 100 demo_fired) =
       p3_reassign_rm_prios_locked
         (kfree 0 (release_task 0 (wake_up_all 0 (cancel_timer 0 demo_window))))
   \<and> map_option canceled (heap demo_window 0) = Some True
   \<and> wait_step 100 False (W_recheck 0 0) demo_window = (W_ret (Inr ()), demo_window)"
proof -
  have a1: "wait_step 100 False W_lookup demo_fired = (W_recheck 0 1, demo_fired)"
    by (simp add: p3_find_locked_def demo_fired_eval deref_def demo_entry_def new_entry_def)
  have a2: "wait_step 100 False (W_recheck 0 1) demo_fired = (W_wait 0 1, demo_fired)"
    by (simp add: demo_fired_eval)
  have a3: "wait_step 100 False (W_wait 0 1) demo_fired = (W_wait 0 1, demo_waiting)"
    by (rule demo_waiting_eval(1))
  have a4: "is_sleeping demo_waiting 100"
    by (simp add: is_sleeping_def demo_waiting_eval)
  have b1: "cancel_rsv 101 100 demo_waiting = (Inr (), demo_freed)"
    by (rule demo_freed_eval(1))
  have b2: "heap demo_freed 0 = None"
    by (simp add: demo_freed_eval)
  have b3: "wait_step 100 False (W_wait 0 1) demo_freed = (W_fault, demo_freed)"
    by (simp add: is_sleeping_def demo_freed_eval demo_tasks_def demo_task_def)
  have c1: "set_rsv 101 100 (Some \<lparr>tv_sec = 0, tv_nsec = 2000000\<rparr>)
        (Some \<lparr>tv_sec = 0, tv_nsec = 10000000\<rparr>) (Some 0) 20000000 demo_freed =
       (Inr (), demo_reused)"
    by (rule demo_reused_eval(1))
  have c2: "map_option period_seq (heap demo_reused 0) = Some 0"
    by (simp add: demo_reused_eval new_entry_def)
  have c3: "map_option canceled (heap demo_reused 0) = Some False"
    by (simp add: demo_reused_eval new_entry_def)
  have w: "wait_step 100 False (W_wait 0 1) demo_reused = (W_woken 0, finish_wait 100 0 demo_reused)"
    by (simp add: is_sleeping_def demo_reused_eval demo_task_def wait_cond_def new_entry_def)
  have c4: "fst (wait_step 100 False (W_wait 0 1) demo_reused) = W_woken 0"
    by (simp only: w fst_conv)
  have "heap (finish_wait 100 0 demo_reused) 0 =
      Some ((new_entry 100 100 2000000 10000000 20000000)\<lparr>prio := 99, wq := []\<rparr>)"
    by (simp add: heap_finish_wait demo_reused_eval new_entry_def)
  then have "wait_step 100 False (W_woken 0) (finish_wait 100 0 demo_reused) =
      (W_ret (Inr ()), finish_wait 100 0 demo_reused)"
    by (simp add: new_entry_def)
  then have c5: "fst (wait_step 100 False (W_woken 0)
      (snd (wait_step 100 False (W_wait 0 1) demo_reused))) = W_ret (Inr ())"
    by (simp only: w fst_conv snd_conv)
  have d1: "wait_step 100 False W_lookup demo_reg = (W_recheck 0 0, demo_reg)"
    by (simp add: p3_find_locked_def demo_reg_eval deref_def demo_entry_def new_entry_def)
  have d3: "snd (cancel_rsv 101 100 demo_fired) =
       p3_reassign_rm_prios_locked
         (kfree 0 (release_task 0 (wake_up_all 0 (cancel_timer 0 demo_window))))"
    by (rule cancel_rsv_through_window)
  have d4: "map_option canceled (heap demo_window 0) = Some True"
    by (simp add: demo_window_eval)
  have d5: "wait_step 100 False (W_recheck 0 0) demo_window = (W_ret (Inr ()), demo_window)"
    by (simp add: demo_window_eval demo_entry_def new_entry_def)
  show ?thesis
    using a1 a2 a3 a4 b1 b2 b3 c1 c2 c3 c4 c5 d1 d3 d4 d5 by blast
qed

section \<open>Cancel and register again\<close>

lemma list_reassign [simp]:
  "p3_rsv_list (p3_reassign_rm_prios_locked st) = p3_rsv_list st"
  by (simp add: p3_reassign_rm_prios_locked_def)

lemma reassign_fields:
  "map_option (\<lambda>e. e\<lparr>prio := 0\<rparr>) (heap (p3_reassign_rm_prios_locked st) a) =
   map_option (\<lambda>e. e\<lparr>prio := 0\<rparr>) (heap st a)"
  by (simp add: p3_reassign_rm_prios_locked_def assign_loop_fields)

lemma reassign_period_seq:
  "map_option period_seq (heap (p3_reassign_rm_prios_locked st) a) = map_option period_seq (heap st a)"
proof -
  have "map_option period_seq (map_option (\<lambda>e. e\<lparr>prio := 0\<rparr>) (heap (p3_reassign_rm_prios_locked st) a)) =
        map_option period_seq (map_option (\<lambda>e. e\<lparr>prio := 0\<rparr>) (heap st a))"
    by (simp only: reassign_fields)
  then show ?thesis
    by (simp add: option.map_comp comp_def)
qed

lemma find_in_cong_pids:
  "(\<And>x. x \<in> set l \<Longrightarrow> pid (deref st' x) = pid (deref st x)) \<Longrightarrow>
   find_in st' p l = find_in st p l"
  by (induction l) simp_all

lemma cancel_rsv_Inr:
  assumes "cancel_rsv cur p0 st = (Inr u, st1)"
  shows "\<exists>e. p3_find_locked st (target_pid cur p0) = Some e \<and>
             st1 = p3_reassign_rm_prios_locked (p3_free_entry (Some e) (list_del e st))"
  using assms by (cases "p3_find_locked st (target_pid cur p0)") (auto simp: cancel_rsv_def)

text \<open>After a successful cancel the task has no reservation left and the list has room.\<close>

lemma cancel_rsv_clears:
  assumes i: "store_inv st" and c: "cancel_rsv cur p0 st = (Inr u, st1)"
  shows "p3_find_locked st1 (target_pid cur p0) = None"
    and "length (p3_rsv_list st1) < P3_MAX_RSV"
    and "store_inv st1"
proof -
  let ?p = "target_pid cur p0"
  obtain e where e: "p3_find_locked st ?p = Some e"
    and st1: "st1 = p3_reassign_rm_prios_locked (p3_free_entry (Some e) (list_del e st))"
    using cancel_rsv_Inr [OF c] by blast
  let ?st' = "p3_free_entry (Some e) (list_del e st)"
  let ?l = "p3_rsv_list st"
  have mem: "e \<in> set ?l" and pe: "pid (deref st e) = ?p"
    using e by (auto simp: p3_find_locked_def dest: find_in_Some)
  have d: "distinct ?l" and dp: "distinct (map (\<lambda>a. pid (deref st a)) ?l)"
    using i by (simp_all add: store_inv_def valid_store_def)
  have l': "p3_rsv_list ?st' = remove1 e ?l" by (simp add: list_del_def)
  have s: "set (remove1 e ?l) = set ?l - {e}" using d by (rule set_remove1_eq)
  have other: "pid (deref st a) \<noteq> ?p" if "a \<in> set (remove1 e ?l)" for a
  proof -
    have "a \<in> set ?l" "a \<noteq> e" using that s by auto
    then have "pid (deref st a) \<noteq> pid (deref st e)"
      using dp mem by (auto simp: distinct_map dest: inj_onD)
    then show ?thesis using pe by simp
  qed
  have same: "pid (deref ?st' a) = pid (deref st a)" if "a \<in> set (remove1 e ?l)" for a
  proof -
    have "a \<noteq> e" using that s by auto
    then show ?thesis by (simp add: deref_def heap_free_entry list_del_def)
  qed
  have fi: "find_in ?st' ?p (remove1 e ?l) = find_in st ?p (remove1 e ?l)"
    using same by (rule find_in_cong_pids)
  have "?p \<notin> set (map (\<lambda>a. pid (deref st a)) (remove1 e ?l))"
  proof
    assume "?p \<in> set (map (\<lambda>a. pid (deref st a)) (remove1 e ?l))"
    then obtain a where "a \<in> set (remove1 e ?l)" "pid (deref st a) = ?p" by auto
    then show False using other by blast
  qed
  then have "find_in st ?p (remove1 e ?l) = None"
    by (simp add: find_in_None_iff)
  then have "p3_find_locked ?st' ?p = None"
    unfolding p3_find_locked_def l' using fi by simp
  then show "p3_find_locked st1 ?p = None"
    unfolding st1 by (simp add: pid_frame_find [OF pid_frame_reassign])
  have "0 < length ?l" using mem by (rule length_pos_if_in_set)
  then have "length (remove1 e ?l) < length ?l"
    using mem by (simp add: length_remove1)
  moreover have "length ?l \<le> P3_MAX_RSV" using i by (simp add: store_inv_def)
  ultimately have "length (remove1 e ?l) < P3_MAX_RSV"
    by simp
  then show "length (p3_rsv_list st1) < P3_MAX_RSV"
    unfolding st1 by (simp add: list_del_def)
  show "store_inv st1"
    unfolding st1 using i by (rule inv_unlink_free)
qed

text \<open>What a successful registration leaves behind for the new task.\<close>

lemma set_rsv_new_entry:
  assumes i: "store_inv st" and v: "\<not> args_invalid c t"
    and r: "pid_task st (target_pid cur p0) \<noteq> None"
    and nf: "p3_find_locked st (target_pid cur p0) = None"
    and len: "length (p3_rsv_list st) < P3_MAX_RSV"
    and fresh: "heap st a = None"
  shows "fst (set_rsv cur p0 (Some c) (Some t) (Some a) now st) = Inr ()"
    and "p3_find_locked (snd (set_rsv cur p0 (Some c) (Some t) (Some a) now st)) (target_pid cur p0)
          = Some a"
    and "map_option period_seq (heap (snd (set_rsv cur p0 (Some c) (Some t) (Some a) now st)) a)
          = Some 0"
proof -
  let ?p = "target_pid cur p0"
  let ?st2 = "(get_task_struct ?p st)
           \<lparr>heap := (heap st)(a \<mapsto> new_entry ?p ?p (ns_of c) (ns_of t) now),
            p3_rsv_list := p3_rsv_list st @ [a]\<rparr>"
  have eq: "set_rsv cur p0 (Some c) (Some t) (Some a) now st =
      (Inr (), p3_reassign_rm_prios_locked ?st2)"
    using v r nf len by (rule set_rsv_success)
  show "fst (set_rsv cur p0 (Some c) (Some t) (Some a) now st) = Inr ()"
    unfolding eq by simp
  have a_notin: "a \<notin> set (p3_rsv_list st)"
    using i fresh by (auto simp: store_inv_def valid_store_def)
  have "find_in ?st2 ?p (p3_rsv_list st) = find_in st ?p (p3_rsv_list st)"
  proof (rule find_in_cong_pids)
    fix x assume "x \<in> set (p3_rsv_list st)"
    then have "x \<noteq> a" using a_notin by blast
    then show "pid (deref ?st2 x) = pid (deref st x)" by (simp add: deref_def)
  qed
  then have "find_in ?st2 ?p (p3_rsv_list st) = None"
    using nf by (simp add: p3_find_locked_def)
  moreover have "pid (deref ?st2 a) = ?p"
    by (simp add: deref_def new_entry_def)
  ultimately have "p3_find_locked ?st2 ?p = Some a"
    by (simp add: p3_find_locked_def find_in_append)
  then show "p3_find_locked (snd (set_rsv cur p0 (Some c) (Some t) (Some a) now st)) ?p = Some a"
    unfolding eq by (simp add: pid_frame_find [OF pid_frame_reassign])
  show "map_option period_seq (heap (snd (set_rsv cur p0 (Some c) (Some t) (Some a) now st)) a)
          = Some 0"
    unfolding eq by (simp add: reassign_period_seq new_entry_def)
qed

text \<open>
  Claim C9. In a reachable state, after \<open>cancel_rsv\<close> has succeeded for a task, the list
  has room, and a \<open>set_rsv\<close> call for the same task with valid arguments, the task
  resolving to a live task, and \<open>kzalloc\<close> returning a record (free capacity, of the
  store and of memory) succeeds; the lookup then finds the new entry for the task, and
  its \<open>period_seq\<close> is 0, whatever the counter of the cancelled reservation was.
\<close>

theorem C9_reregister_fresh_sequence:
  assumes "reachable st"
    and "cancel_rsv cur p0 st = (Inr (), st1)"
    and "target_pid cur' p0' = target_pid cur p0"
    and "\<not> args_invalid c t"
    and "pid_task st1 (target_pid cur p0) \<noteq> None"
    and "heap st1 a = None"
  shows "length (p3_rsv_list st1) < P3_MAX_RSV
    \<and> fst (set_rsv cur' p0' (Some c) (Some t) (Some a) now st1) = Inr ()
    \<and> p3_find_locked (snd (set_rsv cur' p0' (Some c) (Some t) (Some a) now st1))
          (target_pid cur p0) = Some a
    \<and> map_option period_seq (heap (snd (set_rsv cur' p0' (Some c) (Some t) (Some a) now st1)) a)
          = Some 0"
proof -
  have i: "store_inv st" using assms(1) by (rule reachable_inv)
  note cl = cancel_rsv_clears [OF i assms(2)]
  have r: "pid_task st1 (target_pid cur' p0') \<noteq> None"
    using assms(3,5) by simp
  have nf: "p3_find_locked st1 (target_pid cur' p0') = None"
    using assms(3) cl(1) by simp
  note new = set_rsv_new_entry [OF cl(3) assms(4) r nf cl(2) assms(6), of now]
  show ?thesis
    using cl(2) new assms(3) by simp
qed

theorem C9_witness:
  "reachable demo_fired
   \<and> map_option period_seq (heap demo_fired 0) = Some 1
   \<and> cancel_rsv 100 100 demo_fired = (Inr (), demo_cancelled)
   \<and> heap demo_cancelled 0 = None
   \<and> fst (set_rsv 100 100 (Some \<lparr>tv_sec = 0, tv_nsec = 2000000\<rparr>)
            (Some \<lparr>tv_sec = 0, tv_nsec = 10000000\<rparr>) (Some 0) 30000000 demo_cancelled) = Inr ()
   \<and> map_option period_seq
         (heap (snd (set_rsv 100 100 (Some \<lparr>tv_sec = 0, tv_nsec = 2000000\<rparr>)
            (Some \<lparr>tv_sec = 0, tv_nsec = 10000000\<rparr>) (Some 0) 30000000 demo_cancelled)) 0) = Some 0"
proof -
  have v: "\<not> args_invalid \<lparr>tv_sec = 0, tv_nsec = 2000000\<rparr> \<lparr>tv_sec = 0, tv_nsec = 10000000\<rparr>"
    by (simp add: args_invalid_def ns_of_small)
  have s: "map_option period_seq (heap demo_fired 0) = Some 1"
    by (simp add: demo_fired_eval)
  show ?thesis
    using C9_reregister_fresh_sequence [OF reachable_demo_fired demo_cancelled_eval(1) refl v
        demo_cancelled_eval(3) demo_cancelled_eval(2), of 30000000]
      reachable_demo_fired demo_cancelled_eval(1,2) s
    by blast
qed

section \<open>The two-task scenario\<close>

text \<open>
  Claim C8. On an empty store with live tasks 100 and 101: registering task 100 with
  \<open>(C, T)\<close> = (2 ms, 10 ms) gives it priority \<open>MAX_RT_PRIO - 1\<close>, the highest there is;
  registering task 101 with (1 ms, 5 ms) gives 101 that priority and task 100 the next
  lower one; cancelling 101 gives task 100 \<open>MAX_RT_PRIO - 1\<close> again.
\<close>

theorem C8_scenario:
  assumes "ts 100 = Some t100" and "ts 101 = Some t101" and "a1 \<noteq> a0"
  shows "(let r1 = set_rsv cur1 100 (Some \<lparr>tv_sec = 0, tv_nsec = 2000000\<rparr>)
                     (Some \<lparr>tv_sec = 0, tv_nsec = 10000000\<rparr>) (Some a0) now1 (boot ts);
              r2 = set_rsv cur2 101 (Some \<lparr>tv_sec = 0, tv_nsec = 1000000\<rparr>)
                     (Some \<lparr>tv_sec = 0, tv_nsec = 5000000\<rparr>) (Some a1) now2 (snd r1);
              r3 = cancel_rsv cur3 101 (snd r2)
          in fst r1 = Inr () \<and> prio_of_task (snd r1) 100 = Some (MAX_RT_PRIO - 1)
           \<and> fst r2 = Inr () \<and> prio_of_task (snd r2) 101 = Some (MAX_RT_PRIO - 1)
           \<and> prio_of_task (snd r2) 100 = Some (MAX_RT_PRIO - 1 - 1)
           \<and> fst r3 = Inr () \<and> prio_of_task (snd r3) 100 = Some (MAX_RT_PRIO - 1)
           \<and> prio_of_task (snd r3) 101 = None)"
proof -
  let ?e100 = "new_entry 100 100 2000000 10000000 now1"
  let ?e101 = "new_entry 101 101 1000000 5000000 now2"
  let ?t100 = "t100\<lparr>usage := usage t100 + 1, policy := SCHED_FIFO, rt_priority := 99\<rparr>"
  let ?t101 = "t101\<lparr>usage := usage t101 + 1, policy := SCHED_FIFO, rt_priority := 99\<rparr>"
  let ?s1 = "\<lparr>heap = [a0 \<mapsto> ?e100\<lparr>prio := 99\<rparr>], p3_rsv_list = [a0],
             tasks = ts(100 \<mapsto> ?t100)\<rparr>"
  let ?s2 = "\<lparr>heap = [a0 \<mapsto> ?e100\<lparr>prio := 98\<rparr>, a1 \<mapsto> ?e101\<lparr>prio := 99\<rparr>],
             p3_rsv_list = [a0, a1],
             tasks = ts(100 \<mapsto> ?t100\<lparr>rt_priority := 98\<rparr>, 101 \<mapsto> ?t101)\<rparr>"
  let ?r3 = "cancel_rsv cur3 101 ?s2"
  have r1: "set_rsv cur1 100 (Some \<lparr>tv_sec = 0, tv_nsec = 2000000\<rparr>)
      (Some \<lparr>tv_sec = 0, tv_nsec = 10000000\<rparr>) (Some a0) now1 (boot ts) = (Inr (), ?s1)"
    using assms(1) by (simp add: scenario_eval)
  have r2: "set_rsv cur2 101 (Some \<lparr>tv_sec = 0, tv_nsec = 1000000\<rparr>)
      (Some \<lparr>tv_sec = 0, tv_nsec = 5000000\<rparr>) (Some a1) now2 ?s1 = (Inr (), ?s2)"
    using assms(2,3) by (simp add: scenario_eval fun_upd_twist)
  have p1: "prio_of_task ?s1 100 = Some (MAX_RT_PRIO - 1)"
    by (simp add: prio_of_task_def p3_find_locked_def deref_def new_entry_def MAX_RT_PRIO_def)
  have p2: "prio_of_task ?s2 101 = Some (MAX_RT_PRIO - 1)"
      "prio_of_task ?s2 100 = Some (MAX_RT_PRIO - 1 - 1)"
    using assms(3)
    by (simp_all add: prio_of_task_def p3_find_locked_def deref_def new_entry_def MAX_RT_PRIO_def)
  have r3: "fst ?r3 = Inr ()" "prio_of_task (snd ?r3) 100 = Some (MAX_RT_PRIO - 1)"
      "prio_of_task (snd ?r3) 101 = None"
    using assms(3) by (simp_all add: prio_of_task_def scenario_eval)
  show ?thesis
    unfolding Let_def r1 r2 snd_conv fst_conv using p1 p2 r3 by blast
qed

theorem C8_witness:
  "demo_tasks 100 = Some demo_task \<and> demo_tasks 101 = Some demo_task \<and> (1::nat) \<noteq> 0
   \<and> (let r1 = set_rsv 100 100 (Some \<lparr>tv_sec = 0, tv_nsec = 2000000\<rparr>)
                     (Some \<lparr>tv_sec = 0, tv_nsec = 10000000\<rparr>) (Some 0) 0 (boot demo_tasks);
              r2 = set_rsv 101 101 (Some \<lparr>tv_sec = 0, tv_nsec = 1000000\<rparr>)
                     (Some \<lparr>tv_sec = 0, tv_nsec = 5000000\<rparr>) (Some 1) 0 (snd r1);
              r3 = cancel_rsv 101 101 (snd r2)
          in fst r1 = Inr () \<and> prio_of_task (snd r1) 100 = Some (MAX_RT_PRIO - 1)
           \<and> fst r2 = Inr () \<and> prio_of_task (snd r2) 101 = Some (MAX_RT_PRIO - 1)
           \<and> prio_of_task (snd r2) 100 = Some (MAX_RT_PRIO - 1 - 1)
           \<and> fst r3 = Inr () \<and> prio_of_task (snd r3) 100 = Some (MAX_RT_PRIO - 1)
           \<and> prio_of_task (snd r3) 101 = None)"
proof -
  have h: "demo_tasks 100 = Some demo_task" "demo_tasks 101 = Some demo_task" "(1::nat) \<noteq> 0"
    by (simp_all add: demo_tasks_def)
  show ?thesis
    using h C8_scenario [OF h, of 100 0 101 0 101] by blast
qed

end
